theory Spec2Isabelle
  imports Complex_Main "HOL-Library.Sublist" "HOL-Library.Log_Nat"
begin

section \<open>JavaScript values used by the bridge\<close>

text \<open>
  A JavaScript \<open>number\<close> is a double: a finite value (\<open>Num 0\<close> is \<open>+0\<close>), \<open>-0\<close>, an
  infinity or \<open>NaN\<close>. A JSON body yields finite values, \<open>-0\<close> and, for a literal beyond
  the range of doubles such as \<open>1e400\<close>, an infinity.
\<close>

datatype number = Num real | NegZero | PosInfinity | NegInfinity | NaN

text \<open>Rounding to the nearest double, ties to the even significand. For \<open>0 < x\<close>,
  \<open>exponent x\<close> is the integer \<open>e\<close> with \<open>2^e \<le> x < 2^(e+1)\<close>; the doubles next to \<open>x\<close> are
  53-bit multiples of \<open>2^(e-52)\<close>, and multiples of \<open>2^(-1074)\<close> below \<open>2^(-1022)\<close>.\<close>

definition exponent :: "real \<Rightarrow> int" where
  "exponent x = (if 1 \<le> x then bitlen \<lfloor>x\<rfloor> - 1 else - bitlen (\<lceil>1 / x\<rceil> - 1))"

definition two_to :: "int \<Rightarrow> real" where
  "two_to e = (if 0 \<le> e then 2 ^ nat e else 1 / 2 ^ nat (- e))"

definition round_half_even :: "real \<Rightarrow> int" where
  "round_half_even x =
     (let n = \<lfloor>x\<rfloor>; r = x - of_int n in
      if r < 1 / 2 then n else if 1 / 2 < r then n + 1 else if even n then n else n + 1)"

definition nearest_double :: "real \<Rightarrow> real" where
  "nearest_double x =
     (let q = two_to (max (exponent x) (- 1022) - 52) in of_int (round_half_even (x / q)) * q)"

text \<open>The double that an operation returns whose exact result is \<open>x \<noteq> 0\<close>: the nearest
  double of that sign, an infinity from \<open>2^1024\<close> on, a zero when it rounds to none.\<close>

definition to_number :: "real \<Rightarrow> number" where
  "to_number x =
     (let m = nearest_double \<bar>x\<bar> in
      if m = 0 then (if 0 < x then Num 0 else NegZero)
      else if 1024 \<le> exponent m then (if 0 < x then PosInfinity else NegInfinity)
      else Num (if 0 < x then m else - m))"

fun is_NaN :: "number \<Rightarrow> bool" where
  "is_NaN NaN = True"
| "is_NaN _ = False"

fun is_infinite :: "number \<Rightarrow> bool" where
  "is_infinite PosInfinity = True"
| "is_infinite NegInfinity = True"
| "is_infinite _ = False"

fun is_zero :: "number \<Rightarrow> bool" where
  "is_zero (Num x) = (x = 0)"
| "is_zero NegZero = True"
| "is_zero _ = False"

fun negative :: "number \<Rightarrow> bool" where
  "negative (Num x) = (x < 0)"
| "negative NegZero = True"
| "negative NegInfinity = True"
| "negative _ = False"

fun finite_value :: "number \<Rightarrow> real" where
  "finite_value (Num x) = x"
| "finite_value _ = 0"

definition signed_zero :: "bool \<Rightarrow> number" where
  "signed_zero neg = (if neg then NegZero else Num 0)"

definition signed_infinity :: "bool \<Rightarrow> number" where
  "signed_infinity neg = (if neg then NegInfinity else PosInfinity)"

text \<open>\<open>a / b\<close>\<close>

definition number_div :: "number \<Rightarrow> number \<Rightarrow> number" where
  "number_div a b =
     (let neg = (negative a \<noteq> negative b) in
      if is_NaN a \<or> is_NaN b then NaN
      else if is_infinite a then (if is_infinite b then NaN else signed_infinity neg)
      else if is_infinite b then signed_zero neg
      else if is_zero b then (if is_zero a then NaN else signed_infinity neg)
      else if is_zero a then signed_zero neg
      else to_number (finite_value a / finite_value b))"

fun Math_ceil :: "number \<Rightarrow> number" where
  "Math_ceil (Num x) = (if - 1 < x \<and> x < 0 then NegZero else Num (of_int \<lceil>x\<rceil>))"
| "Math_ceil NegZero = NegZero"
| "Math_ceil PosInfinity = PosInfinity"
| "Math_ceil NegInfinity = NegInfinity"
| "Math_ceil NaN = NaN"

text \<open>\<open>pollCount < n\<close> and \<open>pollCount >= n\<close> for the counter, which is a whole number from
  \<open>0\<close> to \<open>2^53\<close>, and a number; both are false when \<open>n\<close> is \<open>NaN\<close>.\<close>

fun number_lt :: "nat \<Rightarrow> number \<Rightarrow> bool" where
  "number_lt c (Num x) = (real c < x)"
| "number_lt c NegZero = False"
| "number_lt c PosInfinity = True"
| "number_lt c NegInfinity = False"
| "number_lt c NaN = False"

fun number_ge :: "nat \<Rightarrow> number \<Rightarrow> bool" where
  "number_ge c (Num x) = (x \<le> real c)"
| "number_ge c NegZero = True"
| "number_ge c PosInfinity = False"
| "number_ge c NegInfinity = True"
| "number_ge c NaN = False"

text \<open>\<open>pollCount++\<close>: the sum \<open>2^53 + 1\<close> is no double and rounds back to \<open>2^53\<close>.\<close>

definition increment :: "nat \<Rightarrow> nat" where
  "increment c = (if int c < 2 ^ 53 then Suc c else c)"

text \<open>Truthiness of an optional number field: absent, \<open>null\<close>, \<open>0\<close>, \<open>-0\<close> and \<open>NaN\<close> are
  falsy.\<close>

fun truthy_number :: "number option \<Rightarrow> bool" where
  "truthy_number None = False"
| "truthy_number (Some (Num x)) = (x \<noteq> 0)"
| "truthy_number (Some NegZero) = False"
| "truthy_number (Some NaN) = False"
| "truthy_number (Some _) = True"

text \<open>Truthiness of an optional string field: absent, \<open>null\<close> and \<open>""\<close> are falsy.\<close>

fun truthy :: "string option \<Rightarrow> bool" where
  "truthy None = False"
| "truthy (Some v) = (v \<noteq> [])"

text \<open>A thrown value: an \<open>Error\<close> object with its message, or anything else.\<close>

datatype thrown = Error string | NotAnError

text \<open>\<open>error instanceof Error ? error.message : fallback\<close>\<close>

fun message_of :: "thrown \<Rightarrow> string \<Rightarrow> string" where
  "message_of (Error m) fallback = m"
| "message_of NotAnError fallback = fallback"


section \<open>Requests, configuration and remote tasks\<close>

datatype Role = user | assistant | system

record AGUIMessage =
  role :: Role
  content :: string

record RequestConfig =
  polling_interval_ms :: "number option"
  timeout_ms :: "number option"

record AGUIRunRequest =
  thread_id :: "string option"
  run_id :: "string option"
  messages :: "AGUIMessage list option"
  config :: "RequestConfig option"

record BridgeConfig =
  binduUrl :: string
  port :: number
  pollIntervalMs :: number
  requestTimeoutMs :: number
  maxPollAttempts :: number

datatype PartKind = Text | File | Data

text \<open>Of a remote task the handler reads \<open>status.state\<close> (declared \<open>string\<close>),
  \<open>artifacts\<close>, and of each artifact its \<open>parts\<close> with \<open>kind\<close> and \<open>text\<close>.\<close>

record BinduArtifactPart =
  kind :: PartKind
  "text" :: "string option"

record BinduArtifact =
  artifact_id :: string
  parts :: "BinduArtifactPart list"

record BinduTaskStatus =
  state :: string

record BinduTask =
  status :: BinduTaskStatus
  artifacts :: "BinduArtifact list option"

definition TERMINAL_STATES :: "string list" where
  "TERMINAL_STATES = [''completed'', ''canceled'', ''failed'']"


section \<open>Events and the event builder\<close>

datatype EventType =
    RUN_STARTED | RUN_FINISHED | RUN_ERROR | STATE_DELTA
  | TEXT_MESSAGE_START | TEXT_MESSAGE_CONTENT | TEXT_MESSAGE_END

text \<open>The fields an event variant adds to the base event: \<open>error.message\<close> and
  \<open>error.code\<close>; \<open>delta.bindu_state\<close>; \<open>message_id\<close> and \<open>role\<close>; \<open>message_id\<close> and
  \<open>content\<close>; \<open>message_id\<close>.\<close>

datatype VariantFields =
    NoFields
  | ErrorFields string "int option"
  | DeltaFields string
  | StartFields string string
  | ContentFields string string
  | EndFields string

record BaseEvent =
  type :: EventType
  timestamp :: int
  thread_id :: string
  run_id :: string

record AGUIEvent = BaseEvent +
  variant :: VariantFields

text \<open>The object spread \<open>{ ...base, more }\<close>.\<close>

definition spread :: "BaseEvent \<Rightarrow> VariantFields \<Rightarrow> AGUIEvent" where
  "spread e v =
     \<lparr>type = type e, timestamp = timestamp e, thread_id = thread_id e, run_id = run_id e,
      variant = v\<rparr>"

record AGUIEventBuilder =
  threadId :: string
  runId :: string

text \<open>Every builder method takes the value of \<open>Date.now()\<close> as its last argument.\<close>

definition base :: "AGUIEventBuilder \<Rightarrow> EventType \<Rightarrow> int \<Rightarrow> BaseEvent" where
  "base b ty now = \<lparr>type = ty, timestamp = now, thread_id = threadId b, run_id = runId b\<rparr>"

definition runStarted :: "AGUIEventBuilder \<Rightarrow> int \<Rightarrow> AGUIEvent" where
  "runStarted b now = spread (base b RUN_STARTED now) NoFields"

definition runFinished :: "AGUIEventBuilder \<Rightarrow> int \<Rightarrow> AGUIEvent" where
  "runFinished b now = spread (base b RUN_FINISHED now) NoFields"

definition runError :: "AGUIEventBuilder \<Rightarrow> string \<Rightarrow> int option \<Rightarrow> int \<Rightarrow> AGUIEvent" where
  "runError b error code now =
     spread (base b RUN_ERROR now) (ErrorFields error code)"

definition stateDelta :: "AGUIEventBuilder \<Rightarrow> string \<Rightarrow> int \<Rightarrow> AGUIEvent" where
  "stateDelta b binduState now =
     spread (base b STATE_DELTA now) (DeltaFields binduState)"

definition textMessageStart :: "AGUIEventBuilder \<Rightarrow> string \<Rightarrow> string \<Rightarrow> int \<Rightarrow> AGUIEvent" where
  "textMessageStart b messageId r now =
     spread (base b TEXT_MESSAGE_START now) (StartFields messageId r)"

definition textMessageContent :: "AGUIEventBuilder \<Rightarrow> string \<Rightarrow> string \<Rightarrow> int \<Rightarrow> AGUIEvent" where
  "textMessageContent b messageId c now =
     spread (base b TEXT_MESSAGE_CONTENT now) (ContentFields messageId c)"

definition textMessageEnd :: "AGUIEventBuilder \<Rightarrow> string \<Rightarrow> int \<Rightarrow> AGUIEvent" where
  "textMessageEnd b messageId now =
     spread (base b TEXT_MESSAGE_END now) (EndFields messageId)"


section \<open>The world around one run\<close>

text \<open>The parameters of \<open>binduClient.sendMessage\<close>: the texts of \<open>message.parts\<close> (each
  part of kind \<open>text\<close>) and the three identifiers; role, kind and configuration are
  constants.\<close>

record SendMessageParams =
  message_parts :: "string list"
  message_messageId :: string
  message_contextId :: string
  message_taskId :: string

text \<open>
  What the handler cannot decide: the identifiers \<open>crypto.randomUUID()\<close> returns, the
  readings of \<open>Date.now()\<close>, whether \<open>sendMessage\<close> throws, what the k-th \<open>getTask\<close>
  returns or throws, and whether the k-th write to the response stream is accepted
  (\<open>None\<close>) or rejected with a thrown value.
\<close>

record world =
  uuids :: "nat \<Rightarrow> string"
  clock :: "nat \<Rightarrow> int"
  sendMessage_result :: "thrown option"
  getTask_result :: "nat \<Rightarrow> thrown + BinduTask"
  write_result :: "nat \<Rightarrow> thrown option"

datatype StreamState = Writable | Closed | Errored

text \<open>The state one run changes: the writable side of the response stream with the
  events written to it, the calls made so far and the durations slept.\<close>

record run_state =
  stream :: StreamState
  chunks :: "AGUIEvent list"
  writes :: nat
  uuid_calls :: nat
  clock_calls :: nat
  sendMessage_calls :: "SendMessageParams list"
  getTask_calls :: "string list"
  sleeps :: "number list"

definition initial :: run_state where
  "initial = \<lparr>stream = Writable, chunks = [], writes = 0, uuid_calls = 0, clock_calls = 0,
     sendMessage_calls = [], getTask_calls = [], sleeps = []\<rparr>"

text \<open>An awaited call either throws or returns, and changes the state.\<close>

type_synonym 'a action = "run_state \<Rightarrow> (thrown + 'a) \<times> run_state"

definition return :: "'a \<Rightarrow> 'a action" where
  "return x s = (Inr x, s)"

definition and_then :: "'a action \<Rightarrow> ('a \<Rightarrow> 'b action) \<Rightarrow> 'b action" where
  "and_then m f s = (case m s of (Inl e, s') \<Rightarrow> (Inl e, s') | (Inr x, s') \<Rightarrow> f x s')"

text \<open>\<open>try { x = await m } catch (error) { ... }\<close>: the outcome of \<open>m\<close> as a value.\<close>

definition attempt :: "'a action \<Rightarrow> (thrown + 'a) action" where
  "attempt m s = (case m s of (r, s') \<Rightarrow> (Inr r, s'))"

text \<open>A call that cannot throw, as an action.\<close>

definition call :: "(run_state \<Rightarrow> 'a \<times> run_state) \<Rightarrow> 'a action" where
  "call f s = (case f s of (x, s') \<Rightarrow> (Inr x, s'))"

definition randomUUID :: "world \<Rightarrow> run_state \<Rightarrow> string \<times> run_state" where
  "randomUUID W s = (uuids W (uuid_calls s), s\<lparr>uuid_calls := Suc (uuid_calls s)\<rparr>)"

definition Date_now :: "world \<Rightarrow> run_state \<Rightarrow> int \<times> run_state" where
  "Date_now W s = (clock W (clock_calls s), s\<lparr>clock_calls := Suc (clock_calls s)\<rparr>)"

definition sendMessage :: "world \<Rightarrow> SendMessageParams \<Rightarrow> unit action" where
  "sendMessage W params s =
     (case sendMessage_result W of
        Some e \<Rightarrow> (Inl e, s\<lparr>sendMessage_calls := sendMessage_calls s @ [params]\<rparr>)
      | None \<Rightarrow> (Inr (), s\<lparr>sendMessage_calls := sendMessage_calls s @ [params]\<rparr>))"

definition getTask :: "world \<Rightarrow> string \<Rightarrow> BinduTask action" where
  "getTask W tid s =
     (getTask_result W (length (getTask_calls s)), s\<lparr>getTask_calls := getTask_calls s @ [tid]\<rparr>)"

text \<open>Modelled from the spec: \<open>utils/sleep.ts\<close> is not among the sources; the spec calls
  the sleep between poll attempts a pure timer suspension. The duration asked for is
  recorded.\<close>

definition sleep :: "number \<Rightarrow> unit action" where
  "sleep ms s = (Inr (), s\<lparr>sleeps := sleeps s @ [ms]\<rparr>)"


section \<open>The output stream sink\<close>

text \<open>
  The writer of the platform's stream, which \<open>createSSEStream\<close> receives: a write to a
  stream that is not writable is rejected; a rejected write leaves the stream errored;
  closing is rejected unless the stream is writable.
\<close>

definition writer_write :: "world \<Rightarrow> AGUIEvent \<Rightarrow> unit action" where
  "writer_write W chunk s =
     (if stream s \<noteq> Writable then (Inl (Error ''TypeError''), s)
      else case write_result W (writes s) of
        Some e \<Rightarrow> (Inl e, s\<lparr>stream := Errored, writes := Suc (writes s)\<rparr>)
      | None \<Rightarrow> (Inr (), s\<lparr>chunks := chunks s @ [chunk], writes := Suc (writes s)\<rparr>))"

definition writer_close :: "unit action" where
  "writer_close s =
     (if stream s \<noteq> Writable then (Inl (Error ''TypeError''), s)
      else (Inr (), s\<lparr>stream := Closed\<rparr>))"

text \<open>\<open>createSSEStream\<close>: \<open>emit\<close> formats the event and awaits the write, \<open>close\<close> awaits
  the writer's close. The chunk is kept as the event it renders.\<close>

definition sse_emit :: "world \<Rightarrow> AGUIEvent \<Rightarrow> unit action" where
  "sse_emit W event = writer_write W event"

definition sse_close :: "unit action" where
  "sse_close = writer_close"

text \<open>\<open>await sse.emit(events.m(...))\<close>: the builder method reads the clock, then the
  event is emitted.\<close>

definition emit :: "world \<Rightarrow> (int \<Rightarrow> AGUIEvent) \<Rightarrow> unit action" where
  "emit W build = and_then (call (Date_now W)) (\<lambda>now. sse_emit W (build now))"


section \<open>The run handler\<close>

subsection \<open>Artifacts of a completed task as text messages\<close>

text \<open>The inner loop of \<open>emitArtifactsAsMessages\<close>, over the parts of one artifact.\<close>

fun emit_parts :: "world \<Rightarrow> AGUIEventBuilder \<Rightarrow> BinduArtifactPart list \<Rightarrow> unit action" where
  "emit_parts W events [] = return ()"
| "emit_parts W events (part # rest) =
     and_then
       (if kind part = Text \<and> truthy (text part) then
          and_then (call (randomUUID W)) (\<lambda>msgId.
          and_then (emit W (textMessageStart events msgId ''assistant'')) (\<lambda>_.
          and_then (emit W (textMessageContent events msgId (the (text part)))) (\<lambda>_.
          emit W (textMessageEnd events msgId))))
        else return ())
       (\<lambda>_. emit_parts W events rest)"

text \<open>The outer loop, over the artifacts.\<close>

fun emit_artifacts :: "world \<Rightarrow> AGUIEventBuilder \<Rightarrow> BinduArtifact list \<Rightarrow> unit action" where
  "emit_artifacts W events [] = return ()"
| "emit_artifacts W events (artifact # rest) =
     and_then (emit_parts W events (parts artifact)) (\<lambda>_. emit_artifacts W events rest)"

definition emitArtifactsAsMessages :: "world \<Rightarrow> AGUIEventBuilder \<Rightarrow> BinduTask \<Rightarrow> unit action" where
  "emitArtifactsAsMessages W events task =
     (case artifacts task of
        None \<Rightarrow> return ()
      | Some as \<Rightarrow> if length as = 0 then return () else emit_artifacts W events as)"

subsection \<open>The poll loop\<close>

datatype control = Break | Next

text \<open>
  One pass through the body of the \<open>while\<close> loop, from the sleep to the \<open>break\<close> or
  to the increment of \<open>pollCount\<close>; it returns how the pass ends and the value of
  \<open>lastState\<close>.
\<close>

definition poll_iteration ::
  "world \<Rightarrow> AGUIEventBuilder \<Rightarrow> string \<Rightarrow> number \<Rightarrow> string \<Rightarrow> (control \<times> string) action" where
  "poll_iteration W events tid intervalMs lastState =
     and_then (sleep intervalMs) (\<lambda>_.
     and_then (attempt (getTask W tid)) (\<lambda>got.
       case got of
         Inl error \<Rightarrow>
           and_then
             (emit W (runError events (message_of error ''Failed to get task status'') None))
             (\<lambda>_. return (Break, lastState))
       | Inr currentTask \<Rightarrow>
           (let currentState = state (status currentTask) in
            and_then
              (if currentState \<noteq> lastState then
                 and_then (emit W (stateDelta events currentState)) (\<lambda>_. return currentState)
               else return lastState)
              (\<lambda>lastState.
                 if currentState \<in> set TERMINAL_STATES then
                   and_then
                     (if currentState = ''completed'' then
                        and_then (emitArtifactsAsMessages W events currentTask) (\<lambda>_.
                        emit W (runFinished events))
                      else if currentState = ''failed'' then
                        emit W (runError events ''Task failed'' None)
                      else if currentState = ''canceled'' then
                        emit W (runError events ''Task canceled'' (Some (- 32000)))
                      else return ())
                     (\<lambda>_. return (Break, lastState))
                 else return (Next, lastState)))))"

text \<open>
  \<open>while (pollCount < maxPollAttempts)\<close>. The loop need not end (the bound may be
  infinite), so it runs on fuel: \<open>None\<close> means that it is still polling when the fuel
  is used up. It returns \<open>lastState\<close> and \<open>pollCount\<close> as they are after the loop.
\<close>

fun poll_loop ::
  "nat \<Rightarrow> world \<Rightarrow> AGUIEventBuilder \<Rightarrow> string \<Rightarrow> number \<Rightarrow> number \<Rightarrow> string \<Rightarrow> nat \<Rightarrow>
   run_state \<Rightarrow> ((thrown + string \<times> nat) \<times> run_state) option" where
  "poll_loop 0 W events tid intervalMs maxAttempts lastState pollCount s = None"
| "poll_loop (Suc fuel) W events tid intervalMs maxAttempts lastState pollCount s =
     (if number_lt pollCount maxAttempts then
        (case poll_iteration W events tid intervalMs lastState s of
           (Inl e, s') \<Rightarrow> Some (Inl e, s')
         | (Inr (Break, lastState'), s') \<Rightarrow> Some (Inr (lastState', pollCount), s')
         | (Inr (Next, lastState'), s') \<Rightarrow>
             poll_loop fuel W events tid intervalMs maxAttempts lastState' (increment pollCount) s')
      else Some (Inr (lastState, pollCount), s))"

subsection \<open>The background task\<close>

text \<open>The body of the \<open>try\<close> block.\<close>

definition try_block ::
  "nat \<Rightarrow> world \<Rightarrow> AGUIMessage list \<Rightarrow> AGUIEventBuilder \<Rightarrow> string \<Rightarrow> string \<Rightarrow> string \<Rightarrow>
   number \<Rightarrow> number \<Rightarrow> run_state \<Rightarrow> ((thrown + unit) \<times> run_state) option" where
  "try_block fuel W msgs events thread tid mid intervalMs maxAttempts s =
     (let userMessages = filter (\<lambda>m. role m = user) msgs in
      if length userMessages = 0 then
        Some (emit W (runError events ''No user messages to send'' None) s)
      else
        case and_then
               (sendMessage W
                  \<lparr>message_parts = map content userMessages, message_messageId = mid,
                   message_contextId = thread, message_taskId = tid\<rparr>)
               (\<lambda>_. emit W (runStarted events)) s of
          (Inl e, s1) \<Rightarrow> Some (Inl e, s1)
        | (Inr _, s1) \<Rightarrow>
            (case poll_loop fuel W events tid intervalMs maxAttempts ''submitted'' 0 s1 of
               None \<Rightarrow> None
             | Some (Inl e, s2) \<Rightarrow> Some (Inl e, s2)
             | Some (Inr (lastState, pollCount), s2) \<Rightarrow>
                 Some ((if number_ge pollCount maxAttempts \<and> lastState \<notin> set TERMINAL_STATES
                        then emit W (runError events ''Polling timeout'' None)
                        else return ()) s2)))"

text \<open>
  \<open>try { ... } catch (error) { try { emit runError } catch {} } finally { try { close }
  catch {} }\<close>: the final state of the run, or \<open>None\<close> while it is still polling.
\<close>

definition background ::
  "nat \<Rightarrow> world \<Rightarrow> AGUIMessage list \<Rightarrow> AGUIEventBuilder \<Rightarrow> string \<Rightarrow> string \<Rightarrow> string \<Rightarrow>
   number \<Rightarrow> number \<Rightarrow> run_state \<Rightarrow> run_state option" where
  "background fuel W msgs events thread tid mid intervalMs maxAttempts s =
     (case try_block fuel W msgs events thread tid mid intervalMs maxAttempts s of
        None \<Rightarrow> None
      | Some (r, s1) \<Rightarrow>
          (let s2 = (case r of
                       Inl error \<Rightarrow>
                         snd (emit W (runError events (message_of error ''Unknown error'') None) s1)
                     | Inr _ \<Rightarrow> s1)
           in Some (snd (sse_close s2))))"

subsection \<open>The handler\<close>

text \<open>What \<open>c.req.json()\<close> gives: it throws when the body is not JSON, and else returns
  \<open>null\<close>, or a value with none of the fields the handler reads (a boolean, a number, a
  string, an array), or an object. The fields of an object that are present have their
  declared types.\<close>

datatype parsed_body = NotJson | JsonNull | JsonOther | JsonObject AGUIRunRequest

text \<open>What the handler does: it throws (the server then answers with status 500), or
  returns a JSON error response with its status, or returns the stream response, given
  with the final state of the background task it started (\<open>None\<close> while that task is
  still polling).\<close>

datatype response = Throws thrown | JsonResponse string nat | StreamResponse "run_state option"

text \<open>\<open>body.run_id || crypto.randomUUID()\<close>\<close>

definition taskId_of :: "world \<Rightarrow> AGUIRunRequest \<Rightarrow> run_state \<Rightarrow> string \<times> run_state" where
  "taskId_of W body s =
     (if truthy (AGUIRunRequest.run_id body) then (the (AGUIRunRequest.run_id body), s)
      else randomUUID W s)"

text \<open>\<open>body.config?.polling_interval_ms ?? config.pollIntervalMs\<close>\<close>

definition pollIntervalMs_of :: "BridgeConfig \<Rightarrow> AGUIRunRequest \<Rightarrow> number" where
  "pollIntervalMs_of cfg body =
     (case Option.bind (config body) polling_interval_ms of
        Some v \<Rightarrow> v
      | None \<Rightarrow> pollIntervalMs cfg)"

text \<open>\<open>body.config?.timeout_ms ? Math.ceil(body.config.timeout_ms / pollIntervalMs)
  : config.maxPollAttempts\<close>\<close>

definition maxPollAttempts_of :: "BridgeConfig \<Rightarrow> AGUIRunRequest \<Rightarrow> number" where
  "maxPollAttempts_of cfg body =
     (if truthy_number (Option.bind (config body) timeout_ms) then
        Math_ceil (number_div (the (Option.bind (config body) timeout_ms))
                     (pollIntervalMs_of cfg body))
      else maxPollAttempts cfg)"

text \<open>Reading \<open>body.thread_id\<close> of \<open>null\<close> throws a \<open>TypeError\<close>, outside any \<open>try\<close>.\<close>

definition handleAGUIRun ::
  "nat \<Rightarrow> BridgeConfig \<Rightarrow> world \<Rightarrow> parsed_body \<Rightarrow> response" where
  "handleAGUIRun fuel cfg W parsed =
     (case parsed of
        NotJson \<Rightarrow> JsonResponse ''Invalid JSON body'' 400
      | JsonNull \<Rightarrow> Throws (Error ''TypeError'')
      | JsonOther \<Rightarrow> JsonResponse ''thread_id is required'' 400
      | JsonObject body \<Rightarrow>
          if \<not> truthy (AGUIRunRequest.thread_id body) then
            JsonResponse ''thread_id is required'' 400
          else if messages body = None \<or> length (the (messages body)) = 0 then
            JsonResponse ''messages array is required and cannot be empty'' 400
          else
            (let threadId = the (AGUIRunRequest.thread_id body);
                 (taskId, s1) = taskId_of W body initial;
                 (messageId, s2) = randomUUID W s1;
                 pollIntervalMs = pollIntervalMs_of cfg body;
                 maxPollAttempts = maxPollAttempts_of cfg body;
                 events = \<lparr>threadId = threadId, runId = taskId\<rparr>
             in StreamResponse
                  (background fuel W (the (messages body)) events threadId taskId messageId
                     pollIntervalMs maxPollAttempts s2)))"

section \<open>A sample run\<close>

text \<open>The bridge's default configuration, a request with one user message, and a remote
  agent that reports \<open>working\<close> at the first poll and \<open>completed\<close>, with one text
  artifact, from the second poll on.\<close>

definition default_config :: BridgeConfig where
  "default_config =
     \<lparr>binduUrl = ''http://localhost:3773'', port = Num 8080,
      pollIntervalMs = Num 500, requestTimeoutMs = Num 30000, maxPollAttempts = Num 120\<rparr>"

definition hi_request :: AGUIRunRequest where
  "hi_request =
     \<lparr>AGUIRunRequest.thread_id = Some ''t1'', AGUIRunRequest.run_id = None,
      messages = Some [\<lparr>role = user, content = ''hi''\<rparr>], config = None\<rparr>"

definition hello_task :: BinduTask where
  "hello_task =
     \<lparr>status = \<lparr>state = ''completed''\<rparr>,
      artifacts = Some [\<lparr>artifact_id = ''a1'', parts = [\<lparr>kind = Text, text = Some ''hello''\<rparr>]\<rparr>]\<rparr>"

definition hello_world :: world where
  "hello_world =
     \<lparr>uuids = (\<lambda>k. if k = 0 then ''run-1'' else if k = 1 then ''msg-1'' else ''msg-2''),
      clock = (\<lambda>k. 1000 + int k),
      sendMessage_result = None,
      getTask_result =
        (\<lambda>k. if k = 0 then Inr \<lparr>status = \<lparr>state = ''working''\<rparr>, artifacts = None\<rparr>
             else Inr hello_task),
      write_result = (\<lambda>k. None)\<rparr>"

definition hello_events :: "AGUIEvent list" where
  "hello_events =
     [\<lparr>type = RUN_STARTED, timestamp = 1000, thread_id = ''t1'', run_id = ''run-1'',
       variant = NoFields\<rparr>,
      \<lparr>type = STATE_DELTA, timestamp = 1001, thread_id = ''t1'', run_id = ''run-1'',
       variant = DeltaFields ''working''\<rparr>,
      \<lparr>type = STATE_DELTA, timestamp = 1002, thread_id = ''t1'', run_id = ''run-1'',
       variant = DeltaFields ''completed''\<rparr>,
      \<lparr>type = TEXT_MESSAGE_START, timestamp = 1003, thread_id = ''t1'', run_id = ''run-1'',
       variant = StartFields ''msg-2'' ''assistant''\<rparr>,
      \<lparr>type = TEXT_MESSAGE_CONTENT, timestamp = 1004, thread_id = ''t1'', run_id = ''run-1'',
       variant = ContentFields ''msg-2'' ''hello''\<rparr>,
      \<lparr>type = TEXT_MESSAGE_END, timestamp = 1005, thread_id = ''t1'', run_id = ''run-1'',
       variant = EndFields ''msg-2''\<rparr>,
      \<lparr>type = RUN_FINISHED, timestamp = 1006, thread_id = ''t1'', run_id = ''run-1'',
       variant = NoFields\<rparr>]"

definition hello_final :: run_state where
  "hello_final =
     \<lparr>stream = Closed, chunks = hello_events, writes = 7, uuid_calls = 3, clock_calls = 7,
      sendMessage_calls =
        [\<lparr>message_parts = [''hi''], message_messageId = ''msg-1'',
          message_contextId = ''t1'', message_taskId = ''run-1''\<rparr>],
      getTask_calls = [''run-1'', ''run-1''], sleeps = [Num 500, Num 500]\<rparr>"

text \<open>The same request with a timeout of zero, with a timeout of one second at a poll
  interval of 300 ms, and with that timeout alone.\<close>

definition zero_timeout_request :: AGUIRunRequest where
  "zero_timeout_request =
     hi_request\<lparr>config := Some \<lparr>polling_interval_ms = None, timeout_ms = Some (Num 0)\<rparr>\<rparr>"

definition timed_request :: AGUIRunRequest where
  "timed_request =
     hi_request\<lparr>config := Some \<lparr>polling_interval_ms = Some (Num 300), timeout_ms = Some (Num 1000)\<rparr>\<rparr>"

definition timeout_only_request :: AGUIRunRequest where
  "timeout_only_request =
     hi_request\<lparr>config := Some \<lparr>polling_interval_ms = None, timeout_ms = Some (Num 1000)\<rparr>\<rparr>"

text \<open>Requests that fail validation, and one whose only message is not a user's, with
  the final state of its run.\<close>

definition no_thread_request :: AGUIRunRequest where
  "no_thread_request = hi_request\<lparr>AGUIRunRequest.thread_id := Some ''''\<rparr>"

definition no_messages_request :: AGUIRunRequest where
  "no_messages_request = hi_request\<lparr>messages := Some []\<rparr>"

definition assistant_only_request :: AGUIRunRequest where
  "assistant_only_request =
     \<lparr>AGUIRunRequest.thread_id = Some ''t1'', AGUIRunRequest.run_id = None,
      messages = Some [\<lparr>role = assistant, content = ''hello''\<rparr>], config = None\<rparr>"

definition no_user_final :: run_state where
  "no_user_final =
     \<lparr>stream = Closed,
      chunks = [\<lparr>type = RUN_ERROR, timestamp = 1000, thread_id = ''t1'', run_id = ''run-1'',
                variant = ErrorFields ''No user messages to send'' None\<rparr>],
      writes = 1, uuid_calls = 2, clock_calls = 1, sendMessage_calls = [], getTask_calls = [],
      sleeps = []\<rparr>"

text \<open>A stream that was closed once; a consumer that takes no write, a write that this
  consumer refused, and the final state of the sample request's run against it.\<close>

definition closed_once :: run_state where
  "closed_once = snd (sse_close initial)"

definition refusing_world :: world where
  "refusing_world = hello_world\<lparr>write_result := (\<lambda>k. Some (Error ''disconnected''))\<rparr>"

definition write_failed :: run_state where
  "write_failed = snd (sse_emit refusing_world (hello_events ! 0) initial)"

definition refused_final :: run_state where
  "refused_final =
     \<lparr>stream = Errored, chunks = [], writes = 1, uuid_calls = 2, clock_calls = 2,
      sendMessage_calls =
        [\<lparr>message_parts = [''hi''], message_messageId = ''msg-1'',
          message_contextId = ''t1'', message_taskId = ''run-1''\<rparr>],
      getTask_calls = [], sleeps = []\<rparr>"

text \<open>The sample request with an empty \<open>run_id\<close>, and a completed task whose artifacts
  mix parts with text and parts without.\<close>

definition empty_run_id_request :: AGUIRunRequest where
  "empty_run_id_request = hi_request\<lparr>AGUIRunRequest.run_id := Some ''''\<rparr>"

definition mixed_task :: BinduTask where
  "mixed_task =
     \<lparr>status = \<lparr>state = ''completed''\<rparr>,
      artifacts = Some
        [\<lparr>artifact_id = ''a1'',
          parts = [\<lparr>kind = Text, text = Some ''one''\<rparr>, \<lparr>kind = File, text = Some ''f''\<rparr>,
                   \<lparr>kind = Text, text = Some ''''\<rparr>, \<lparr>kind = Text, text = None\<rparr>]\<rparr>,
         \<lparr>artifact_id = ''a2'',
          parts = [\<lparr>kind = Data, text = None\<rparr>, \<lparr>kind = Text, text = Some ''two''\<rparr>]\<rparr>]\<rparr>"

text \<open>A remote agent that reports \<open>working\<close> twice before \<open>completed\<close>, and the final
  state of the sample request's run against it.\<close>

definition steady_world :: world where
  "steady_world =
     hello_world\<lparr>getTask_result :=
       (\<lambda>k. if k < 2 then Inr \<lparr>status = \<lparr>state = ''working''\<rparr>, artifacts = None\<rparr>
            else Inr hello_task)\<rparr>"

definition steady_final :: run_state where
  "steady_final =
     hello_final\<lparr>getTask_calls := [''run-1'', ''run-1'', ''run-1''],
       sleeps := [Num 500, Num 500, Num 500]\<rparr>"


text \<open>The final state of the run of the request with the timeout of one second; a remote
  agent that never leaves \<open>working\<close>, and the final state of that request's run against
  it.\<close>

definition timed_final :: run_state where
  "timed_final = hello_final\<lparr>sleeps := [Num 300, Num 300]\<rparr>"

definition working_world :: world where
  "working_world =
     hello_world\<lparr>getTask_result :=
       (\<lambda>k. Inr \<lparr>status = \<lparr>state = ''working''\<rparr>, artifacts = None\<rparr>)\<rparr>"

definition exhausted_final :: run_state where
  "exhausted_final =
     \<lparr>stream = Closed,
      chunks =
        [\<lparr>type = RUN_STARTED, timestamp = 1000, thread_id = ''t1'', run_id = ''run-1'',
          variant = NoFields\<rparr>,
         \<lparr>type = STATE_DELTA, timestamp = 1001, thread_id = ''t1'', run_id = ''run-1'',
          variant = DeltaFields ''working''\<rparr>,
         \<lparr>type = RUN_ERROR, timestamp = 1002, thread_id = ''t1'', run_id = ''run-1'',
          variant = ErrorFields ''Polling timeout'' None\<rparr>],
      writes = 3, uuid_calls = 2, clock_calls = 3,
      sendMessage_calls =
        [\<lparr>message_parts = [''hi''], message_messageId = ''msg-1'',
          message_contextId = ''t1'', message_taskId = ''run-1''\<rparr>],
      getTask_calls = [''run-1'', ''run-1'', ''run-1'', ''run-1''],
      sleeps = [Num 300, Num 300, Num 300, Num 300]\<rparr>"

text \<open>The sample request with \<open>"config": {"polling_interval_ms": 1e400, "timeout_ms":
  1e400}\<close>, both of which JSON parsing reads as \<open>Infinity\<close>, and the final state of its
  run.\<close>

definition overflow_request :: AGUIRunRequest where
  "overflow_request =
     hi_request\<lparr>config :=
       Some \<lparr>polling_interval_ms = Some PosInfinity, timeout_ms = Some PosInfinity\<rparr>\<rparr>"

definition started_only :: run_state where
  "started_only =
     \<lparr>stream = Closed,
      chunks = [\<lparr>type = RUN_STARTED, timestamp = 1000, thread_id = ''t1'', run_id = ''run-1'',
                variant = NoFields\<rparr>],
      writes = 1, uuid_calls = 2, clock_calls = 1,
      sendMessage_calls =
        [\<lparr>message_parts = [''hi''], message_messageId = ''msg-1'',
          message_contextId = ''t1'', message_taskId = ''run-1''\<rparr>],
      getTask_calls = [], sleeps = []\<rparr>"

section \<open>Properties of actions and of events\<close>

text \<open>\<open>triple P m Q E\<close>: from a state with \<open>P\<close>, the action \<open>m\<close> either returns \<open>x\<close> in a
  state with \<open>Q x\<close> or throws in a state with \<open>E\<close>.\<close>

definition triple ::
  "(run_state \<Rightarrow> bool) \<Rightarrow> 'a action \<Rightarrow> ('a \<Rightarrow> run_state \<Rightarrow> bool) \<Rightarrow> (run_state \<Rightarrow> bool) \<Rightarrow> bool" where
  "triple P m Q E =
     (\<forall>s. P s \<longrightarrow> (case m s of (Inl e, s') \<Rightarrow> E s' | (Inr x, s') \<Rightarrow> Q x s'))"

text \<open>An invariant of the state that an action keeps, however it ends.\<close>

definition keeps :: "(run_state \<Rightarrow> bool) \<Rightarrow> 'a action \<Rightarrow> bool" where
  "keeps I m = triple I m (\<lambda>_. I) I"

text \<open>An event carries the identifiers of the builder that made it.\<close>

definition stamped :: "AGUIEventBuilder \<Rightarrow> AGUIEvent \<Rightarrow> bool" where
  "stamped events e = (thread_id e = threadId events \<and> run_id e = runId events)"

definition all_stamped :: "AGUIEventBuilder \<Rightarrow> run_state \<Rightarrow> bool" where
  "all_stamped events s = (\<forall>e \<in> set (chunks s). stamped events e)"

text \<open>Every remote call of a run names the task \<open>tid\<close>.\<close>

definition calls_for :: "string \<Rightarrow> run_state \<Rightarrow> bool" where
  "calls_for tid s =
     ((\<forall>p \<in> set (sendMessage_calls s). message_taskId p = tid) \<and>
      (\<forall>t \<in> set (getTask_calls s). t = tid))"

text \<open>The sink accepts every write.\<close>

definition accepting :: "world \<Rightarrow> bool" where
  "accepting W = (\<forall>k. write_result W k = None)"

text \<open>The text a part contributes to the stream: that of a part of kind \<open>text\<close> whose text
  is present and not empty.\<close>

definition text_of_part :: "BinduArtifactPart \<Rightarrow> string option" where
  "text_of_part p =
     (case text p of
        Some t \<Rightarrow> if kind p = Text \<and> t \<noteq> [] then Some t else None
      | None \<Rightarrow> None)"

text \<open>The texts of a task, in the order of its artifacts and of their parts.\<close>

definition text_bearing :: "BinduTask \<Rightarrow> string list" where
  "text_bearing task =
     concat (map (\<lambda>a. List.map_filter text_of_part (parts a))
               (case artifacts task of None \<Rightarrow> [] | Some as \<Rightarrow> as))"

text \<open>One triple of message events for each text, each triple under the next generated
  message id and stamped with the next three readings of the clock.\<close>

fun message_events ::
  "world \<Rightarrow> AGUIEventBuilder \<Rightarrow> nat \<Rightarrow> nat \<Rightarrow> string list \<Rightarrow> AGUIEvent list" where
  "message_events W events u c [] = []"
| "message_events W events u c (t # ts) =
     [textMessageStart events (uuids W u) ''assistant'' (clock W c),
      textMessageContent events (uuids W u) t (clock W (Suc c)),
      textMessageEnd events (uuids W u) (clock W (Suc (Suc c)))]
     @ message_events W events (Suc u) (c + 3) ts"

text \<open>What an action leaves alone when it only emits message events.\<close>

definition messages_only ::
  "world \<Rightarrow> AGUIEventBuilder \<Rightarrow> string list \<Rightarrow> run_state \<Rightarrow> run_state \<Rightarrow> bool" where
  "messages_only W events ts s s' =
     (chunks s' = chunks s @ message_events W events (uuid_calls s) (clock_calls s) ts \<and>
      stream s' = Writable \<and>
      uuid_calls s' = uuid_calls s + length ts \<and>
      clock_calls s' = clock_calls s + 3 * length ts \<and>
      sendMessage_calls s' = sendMessage_calls s \<and>
      getTask_calls s' = getTask_calls s)"

text \<open>The terminal events of a run.\<close>

definition terminal_event :: "AGUIEvent \<Rightarrow> bool" where
  "terminal_event e = (type e = RUN_FINISHED \<or> type e = RUN_ERROR)"

definition no_terminal :: "AGUIEvent list \<Rightarrow> bool" where
  "no_terminal evs = (\<forall>e \<in> set evs. \<not> terminal_event e)"

definition one_terminal_last :: "AGUIEvent list \<Rightarrow> bool" where
  "one_terminal_last evs = (evs \<noteq> [] \<and> terminal_event (last evs) \<and> no_terminal (butlast evs))"

text \<open>Unless a write failed, which leaves the stream errored: the stream is open and
  holds no terminal event; it is open and its one terminal event is the last.\<close>

definition running :: "run_state \<Rightarrow> bool" where
  "running s = (stream s = Errored \<or> stream s = Writable \<and> no_terminal (chunks s))"

definition finished :: "run_state \<Rightarrow> bool" where
  "finished s = (stream s = Errored \<or> stream s = Writable \<and> one_terminal_last (chunks s))"

text \<open>How one pass through the loop body leaves the stream.\<close>

definition iteration_post :: "control \<times> string \<Rightarrow> run_state \<Rightarrow> bool" where
  "iteration_post r s =
     (case r of
        (Next, ls) \<Rightarrow> running s \<and> ls \<notin> set TERMINAL_STATES
      | (Break, ls) \<Rightarrow> finished s)"

text \<open>How the loop leaves the stream, with its result.\<close>

definition loop_post :: "number \<Rightarrow> thrown + string \<times> nat \<Rightarrow> run_state \<Rightarrow> bool" where
  "loop_post maxAttempts r s =
     (case r of
        Inl e \<Rightarrow> running s
      | Inr (ls, pc) \<Rightarrow>
          (finished s \<and> \<not> number_ge pc maxAttempts) \<or>
          (running s \<and> ls \<notin> set TERMINAL_STATES \<and> number_ge pc maxAttempts))"

text \<open>The states that the state-delta events on a stream announce, in order.\<close>

definition bindu_state :: "AGUIEvent \<Rightarrow> string" where
  "bindu_state e = (case variant e of DeltaFields st \<Rightarrow> st | _ \<Rightarrow> [])"

definition state_deltas :: "AGUIEvent list \<Rightarrow> string list" where
  "state_deltas evs = map bindu_state (filter (\<lambda>e. type e = STATE_DELTA) evs)"

text \<open>The states that the first \<open>n\<close> status queries returned; a query that failed
  returned none.\<close>

definition observed :: "world \<Rightarrow> nat \<Rightarrow> string list" where
  "observed W n =
     concat (map (\<lambda>k. case getTask_result W k of
                         Inr task \<Rightarrow> [state (status task)]
                       | Inl _ \<Rightarrow> []) [0..<n])"

text \<open>The changes in a sequence of states that starts from \<open>prev\<close>: each state that
  differs from the one before it.\<close>

fun state_changes :: "string \<Rightarrow> string list \<Rightarrow> string list" where
  "state_changes prev [] = []"
| "state_changes prev (st # sts) =
     (if st \<noteq> prev then st # state_changes st sts else state_changes prev sts)"

text \<open>The k-th status query returned a task in a state that is not terminal.\<close>

definition nonterminal_poll :: "world \<Rightarrow> nat \<Rightarrow> bool" where
  "nonterminal_poll W k =
     (case getTask_result W k of
        Inr task \<Rightarrow> state (status task) \<notin> set TERMINAL_STATES
      | Inl _ \<Rightarrow> False)"

definition polls_ok :: "world \<Rightarrow> nat \<Rightarrow> bool" where
  "polls_ok W n = (\<forall>k < n. nonterminal_poll W k)"

text \<open>The state deltas on the stream are changes of the first \<open>n\<close> observed states, and
  all of them unless a write failed.\<close>

definition deltas_ok :: "world \<Rightarrow> nat \<Rightarrow> run_state \<Rightarrow> bool" where
  "deltas_ok W n s =
     (prefix (state_deltas (chunks s)) (state_changes ''submitted'' (observed W n)) \<and>
      (stream s \<noteq> Errored \<longrightarrow>
         state_deltas (chunks s) = state_changes ''submitted'' (observed W n)))"

text \<open>The state at the head of the loop, after a status query, after the comparison
  with the last state, and at the end.\<close>

definition polling :: "world \<Rightarrow> string \<Rightarrow> run_state \<Rightarrow> bool" where
  "polling W lastState s =
     (stream s \<noteq> Closed \<and> polls_ok W (length (getTask_calls s)) \<and>
      lastState = last (''submitted'' # observed W (length (getTask_calls s))) \<and>
      deltas_ok W (length (getTask_calls s)) s)"

definition queried :: "world \<Rightarrow> string \<Rightarrow> thrown + BinduTask \<Rightarrow> run_state \<Rightarrow> bool" where
  "queried W lastState got s =
     (getTask_calls s \<noteq> [] \<and> got = getTask_result W (length (getTask_calls s) - 1) \<and>
      stream s \<noteq> Closed \<and> polls_ok W (length (getTask_calls s) - 1) \<and>
      lastState = last (''submitted'' # observed W (length (getTask_calls s) - 1)) \<and>
      deltas_ok W (length (getTask_calls s) - 1) s)"

definition compared :: "world \<Rightarrow> BinduTask \<Rightarrow> run_state \<Rightarrow> bool" where
  "compared W task s =
     (getTask_calls s \<noteq> [] \<and> getTask_result W (length (getTask_calls s) - 1) = Inr task \<and>
      stream s \<noteq> Closed \<and> polls_ok W (length (getTask_calls s) - 1) \<and>
      deltas_ok W (length (getTask_calls s)) s)"

definition polled :: "world \<Rightarrow> run_state \<Rightarrow> bool" where
  "polled W s =
     (polls_ok W (length (getTask_calls s) - 1) \<and> deltas_ok W (length (getTask_calls s)) s)"

text \<open>The state before the first status query.\<close>

definition fresh :: "run_state \<Rightarrow> bool" where
  "fresh s = (getTask_calls s = [] \<and> state_deltas (chunks s) = [] \<and> stream s \<noteq> Closed)"

text \<open>How one pass through the loop body leaves the polls and the state deltas.\<close>

definition polling_post :: "world \<Rightarrow> control \<times> string \<Rightarrow> run_state \<Rightarrow> bool" where
  "polling_post W r s =
     (case r of (Next, ls) \<Rightarrow> polling W ls s | (Break, ls) \<Rightarrow> polled W s)"

text \<open>A builder method that makes no state-delta event.\<close>

definition no_delta :: "(int \<Rightarrow> AGUIEvent) \<Rightarrow> bool" where
  "no_delta build = (\<forall>now. type (build now) \<noteq> STATE_DELTA)"

text \<open>A number of poll attempts that respects a bound. The counter stops at \<open>2^53\<close>, so
  it never reaches a bound beyond that; the loop starts no attempt under a bound that is
  negative, zero or \<open>NaN\<close>.\<close>

fun attempts_within :: "nat \<Rightarrow> number \<Rightarrow> bool" where
  "attempts_within n (Num m) = (m \<le> 2 ^ 53 \<longrightarrow> int n \<le> max 0 \<lceil>m\<rceil>)"
| "attempts_within n PosInfinity = True"
| "attempts_within n NegZero = (n = 0)"
| "attempts_within n NegInfinity = (n = 0)"
| "attempts_within n NaN = (n = 0)"

text \<open>The state at the head of the loop, where the counter is \<open>pollCount\<close>, and at the
  end: every attempt slept once and queried once.\<close>

definition counting :: "number \<Rightarrow> nat \<Rightarrow> run_state \<Rightarrow> bool" where
  "counting bound pollCount s =
     (length (sleeps s) = length (getTask_calls s) \<and>
      pollCount \<le> length (getTask_calls s) \<and> int pollCount \<le> 2 ^ 53 \<and>
      (int pollCount < 2 ^ 53 \<longrightarrow> pollCount = length (getTask_calls s)) \<and>
      attempts_within (length (getTask_calls s)) bound)"

definition counted :: "number \<Rightarrow> run_state \<Rightarrow> bool" where
  "counted bound s =
     (length (sleeps s) = length (getTask_calls s) \<and>
      attempts_within (length (getTask_calls s)) bound)"

text \<open>The state before the first attempt.\<close>

definition unpolled :: "run_state \<Rightarrow> bool" where
  "unpolled s = (sleeps s = [] \<and> getTask_calls s = [])"

text \<open>Every sleep so far lasted \<open>ms\<close>.\<close>

definition slept :: "number \<Rightarrow> run_state \<Rightarrow> bool" where
  "slept ms s = (\<forall>x \<in> set (sleeps s). x = ms)"

text \<open>Nothing but the bound stops the polling of a run: there is a user message to send,
  the remote agent accepts it and then never fails nor reports a terminal state, and the
  sink accepts every write.\<close>

definition unstopped :: "world \<Rightarrow> AGUIMessage list \<Rightarrow> bool" where
  "unstopped W msgs =
     ((\<exists>m \<in> set msgs. role m = user) \<and> sendMessage_result W = None \<and>
      (\<forall>k. nonterminal_poll W k) \<and> accepting W)"

text \<open>The number of poll attempts of a run that the bound has stopped. Under an infinite
  bound, or one beyond \<open>2^53\<close>, no run is stopped by it.\<close>

fun attempts_are :: "nat \<Rightarrow> number \<Rightarrow> bool" where
  "attempts_are n (Num m) = (m \<le> 2 ^ 53 \<and> int n = max 0 \<lceil>m\<rceil>)"
| "attempts_are n PosInfinity = False"
| "attempts_are n NegZero = (n = 0)"
| "attempts_are n NegInfinity = (n = 0)"
| "attempts_are n NaN = (n = 0)"

section \<open>Lemmas\<close>

lemma tripleI:
  assumes "\<And>s e s'. P s \<Longrightarrow> m s = (Inl e, s') \<Longrightarrow> E s'"
    and "\<And>s x s'. P s \<Longrightarrow> m s = (Inr x, s') \<Longrightarrow> Q x s'"
  shows "triple P m Q E"
  unfolding triple_def using assms by (auto split: prod.splits sum.splits)

lemma tripleD_ok: "triple P m Q E \<Longrightarrow> P s \<Longrightarrow> m s = (Inr x, s') \<Longrightarrow> Q x s'"
  unfolding triple_def by fastforce

lemma tripleD_thrown: "triple P m Q E \<Longrightarrow> P s \<Longrightarrow> m s = (Inl e, s') \<Longrightarrow> E s'"
  unfolding triple_def by fastforce

lemma triple_return: "(\<And>s. P s \<Longrightarrow> Q x s) \<Longrightarrow> triple P (return x) Q E"
  by (rule tripleI) (auto simp: return_def)

lemma triple_and_then:
  assumes "triple P m R E" and "\<And>x. triple (R x) (f x) Q E"
  shows "triple P (and_then m f) Q E"
proof (rule tripleI)
  fix s e s' assume P: "P s" and run: "and_then m f s = (Inl e, s')"
  show "E s'"
  proof (cases "m s")
    case (Pair r s1)
    show ?thesis
    proof (cases r)
      case (Inl e1)
      with Pair run have "s' = s1" by (simp add: and_then_def)
      with tripleD_thrown[OF assms(1) P] Pair Inl show ?thesis by simp
    next
      case (Inr x)
      with Pair run have "f x s1 = (Inl e, s')" by (simp add: and_then_def)
      moreover from tripleD_ok[OF assms(1) P] Pair Inr have "R x s1" by simp
      ultimately show ?thesis using tripleD_thrown[OF assms(2)] by blast
    qed
  qed
next
  fix s y s' assume P: "P s" and run: "and_then m f s = (Inr y, s')"
  show "Q y s'"
  proof (cases "m s")
    case (Pair r s1)
    show ?thesis
    proof (cases r)
      case (Inl e1)
      with Pair run show ?thesis by (simp add: and_then_def)
    next
      case (Inr x)
      with Pair run have "f x s1 = (Inr y, s')" by (simp add: and_then_def)
      moreover from tripleD_ok[OF assms(1) P] Pair Inr have "R x s1" by simp
      ultimately show ?thesis using tripleD_ok[OF assms(2)] by blast
    qed
  qed
qed

lemma triple_if:
  assumes "c \<Longrightarrow> triple P m Q E" and "\<not> c \<Longrightarrow> triple P n Q E"
  shows "triple P (if c then m else n) Q E"
  using assms by simp

lemma triple_weaken:
  assumes "triple P m Q E" and "\<And>s. P' s \<Longrightarrow> P s" and "\<And>x s. Q x s \<Longrightarrow> Q' x s"
    and "\<And>s. E s \<Longrightarrow> E' s"
  shows "triple P' m Q' E'"
  using assms unfolding triple_def by (fastforce split: prod.splits sum.splits)

text \<open>What one emission does.\<close>

lemma emit_accepted:
  assumes "stream s = Writable" and "write_result W (writes s) = None"
  shows "emit W build s =
    (Inr (), s\<lparr>clock_calls := Suc (clock_calls s),
               chunks := chunks s @ [build (clock W (clock_calls s))],
               writes := Suc (writes s)\<rparr>)"
  using assms
  by (simp add: emit_def and_then_def call_def Date_now_def sse_emit_def writer_write_def)

lemma emit_cases:
  assumes "emit W build s = (r, s')"
  shows "sendMessage_calls s' = sendMessage_calls s \<and> getTask_calls s' = getTask_calls s \<and>
         uuid_calls s' = uuid_calls s \<and>
         ((r = Inr () \<and> stream s = Writable \<and> stream s' = Writable \<and>
           chunks s' = chunks s @ [build (clock W (clock_calls s))]) \<or>
          ((\<exists>e. r = Inl e) \<and> stream s' \<noteq> Writable \<and> chunks s' = chunks s))"
  using assms
  by (auto simp: emit_def and_then_def call_def Date_now_def sse_emit_def writer_write_def
      split: if_splits option.splits)

lemma keeps_return: "keeps I (return x)"
  unfolding keeps_def by (rule triple_return)

lemma keeps_and_then: "keeps I m \<Longrightarrow> (\<And>x. keeps I (f x)) \<Longrightarrow> keeps I (and_then m f)"
  unfolding keeps_def by (rule triple_and_then)

lemma keeps_attempt: "keeps I m \<Longrightarrow> keeps I (attempt m)"
  unfolding keeps_def triple_def attempt_def
  by (fastforce split: prod.splits sum.splits)

lemma keepsD: "keeps I m \<Longrightarrow> I s \<Longrightarrow> m s = (r, s') \<Longrightarrow> I s'"
  unfolding keeps_def triple_def by (cases r) fastforce+

lemma builder_stamped:
  "stamped events (runStarted events now)"
  "stamped events (runFinished events now)"
  "stamped events (runError events msg code now)"
  "stamped events (stateDelta events st now)"
  "stamped events (textMessageStart events m r now)"
  "stamped events (textMessageContent events m c now)"
  "stamped events (textMessageEnd events m now)"
  by (simp_all add: stamped_def runStarted_def runFinished_def runError_def stateDelta_def
      textMessageStart_def textMessageContent_def textMessageEnd_def spread_def base_def)

text \<open>An invariant that every emission of a builder event and every other call keeps
  is kept by the whole run.\<close>

lemma emit_parts_keeps:
  assumes em: "\<And>build. B build \<Longrightarrow> keeps I (emit W build)"
    and tx: "\<And>m r. B (textMessageStart events m r)" "\<And>m c. B (textMessageContent events m c)"
      "\<And>m. B (textMessageEnd events m)"
    and uu: "keeps I (call (randomUUID W))"
  shows "keeps I (emit_parts W events ps)"
proof (induction ps)
  case Nil
  show ?case by (simp add: keeps_return)
next
  case (Cons p ps)
  show ?case
    by (simp del: truthy.simps)
       (intro conjI impI keeps_and_then keeps_return uu em tx Cons.IH)
qed

lemma emit_artifacts_keeps:
  assumes em: "\<And>build. B build \<Longrightarrow> keeps I (emit W build)"
    and tx: "\<And>m r. B (textMessageStart events m r)" "\<And>m c. B (textMessageContent events m c)"
      "\<And>m. B (textMessageEnd events m)"
    and uu: "keeps I (call (randomUUID W))"
  shows "keeps I (emit_artifacts W events as)"
proof (induction as)
  case Nil
  show ?case by (simp add: keeps_return)
next
  case (Cons a as)
  have "keeps I (emit_parts W events (parts a))"
    using em tx uu by (rule emit_parts_keeps)
  with Cons.IH show ?case
    by (simp add: keeps_and_then)
qed

lemma emitArtifactsAsMessages_keeps:
  assumes em: "\<And>build. B build \<Longrightarrow> keeps I (emit W build)"
    and tx: "\<And>m r. B (textMessageStart events m r)" "\<And>m c. B (textMessageContent events m c)"
      "\<And>m. B (textMessageEnd events m)"
    and uu: "keeps I (call (randomUUID W))"
  shows "keeps I (emitArtifactsAsMessages W events task)"
proof -
  have "keeps I (emit_artifacts W events as)" for as
    using em tx uu by (rule emit_artifacts_keeps)
  then show ?thesis
    unfolding emitArtifactsAsMessages_def
    by (auto split: option.splits intro!: keeps_return)
qed

lemma poll_iteration_keeps:
  assumes em: "\<And>build. (\<And>now. stamped events (build now)) \<Longrightarrow> keeps I (emit W build)"
    and uu: "keeps I (call (randomUUID W))"
    and gt: "keeps I (getTask W tid)"
    and sl: "keeps I (sleep intervalMs)"
  shows "keeps I (poll_iteration W events tid intervalMs lastState)"
proof -
  have ar: "keeps I (emitArtifactsAsMessages W events task)" for task
    by (rule emitArtifactsAsMessages_keeps[where B = "\<lambda>build. \<forall>now. stamped events (build now)"])
       (auto intro: em uu simp: builder_stamped)
  show ?thesis
    unfolding poll_iteration_def Let_def
    by (intro keeps_and_then sl keeps_attempt gt)
       (auto split: sum.splits intro!: keeps_and_then keeps_return em builder_stamped ar)
qed

lemma poll_loop_keeps:
  assumes em: "\<And>build. (\<And>now. stamped events (build now)) \<Longrightarrow> keeps I (emit W build)"
    and uu: "keeps I (call (randomUUID W))"
    and gt: "keeps I (getTask W tid)"
    and sl: "keeps I (sleep intervalMs)"
  shows "I s \<Longrightarrow> poll_loop fuel W events tid intervalMs maxAttempts lastState pollCount s = Some (r, s')
    \<Longrightarrow> I s'"
proof (induction fuel arbitrary: lastState pollCount s)
  case 0
  then show ?case by simp
next
  case (Suc fuel)
  have kit: "keeps I (poll_iteration W events tid intervalMs lastState)"
    using em uu gt sl by (rule poll_iteration_keeps)
  show ?case
  proof (cases "number_lt pollCount maxAttempts")
    case False
    with Suc.prems show ?thesis by simp
  next
    case True
    obtain r1 s1 where run: "poll_iteration W events tid intervalMs lastState s = (r1, s1)"
      by (cases "poll_iteration W events tid intervalMs lastState s")
    from keepsD[OF kit Suc.prems(1) run] have I1: "I s1" .
    show ?thesis
    proof (cases r1)
      case (Inl e)
      with Suc.prems(2) True run I1 show ?thesis by auto
    next
      case (Inr cl)
      obtain c l where cl: "cl = (c, l)" by (cases cl)
      show ?thesis
      proof (cases c)
        case Break
        with Suc.prems(2) True run I1 Inr cl show ?thesis by auto
      next
        case Next
        with Suc.prems(2) True run Inr cl
        have "poll_loop fuel W events tid intervalMs maxAttempts l (increment pollCount) s1 = Some (r, s')"
          by simp
        from Suc.IH[OF I1 this] show ?thesis .
      qed
    qed
  qed
qed

lemma try_block_keeps:
  assumes em: "\<And>build. (\<And>now. stamped events (build now)) \<Longrightarrow> keeps I (emit W build)"
    and uu: "keeps I (call (randomUUID W))"
    and gt: "keeps I (getTask W tid)"
    and sl: "keeps I (sleep intervalMs)"
    and sm: "\<And>params. message_taskId params = tid \<Longrightarrow> keeps I (sendMessage W params)"
    and I: "I s"
    and run: "try_block fuel W msgs events thread tid mid intervalMs maxAttempts s = Some (r, s')"
  shows "I s'"
proof (cases "length (filter (\<lambda>m. role m = user) msgs) = 0")
  case True
  with run have "emit W (runError events ''No user messages to send'' None) s = (r, s')"
    by (simp add: try_block_def)
  from keepsD[OF em[OF builder_stamped(3)] I this] show ?thesis .
next
  case False
  let ?start = "and_then
     (sendMessage W \<lparr>message_parts = map content (filter (\<lambda>m. role m = user) msgs),
        message_messageId = mid, message_contextId = thread, message_taskId = tid\<rparr>)
     (\<lambda>_. emit W (runStarted events))"
  have ks: "keeps I ?start"
    by (intro keeps_and_then sm em builder_stamped) simp
  obtain r1 s1 where st: "?start s = (r1, s1)" by (cases "?start s")
  from keepsD[OF ks I st] have I1: "I s1" .
  show ?thesis
  proof (cases r1)
    case (Inl e)
    with run False st I1 show ?thesis by (auto simp: try_block_def)
  next
    case (Inr u)
    show ?thesis
    proof (cases "poll_loop fuel W events tid intervalMs maxAttempts ''submitted'' 0 s1")
      case None
      with run False st Inr show ?thesis by (simp add: try_block_def)
    next
      case (Some res)
      obtain r2 s2 where res: "res = (r2, s2)" by (cases res)
      have I2: "I s2" using em uu gt sl I1 Some[unfolded res] by (rule poll_loop_keeps)
      show ?thesis
      proof (cases r2)
        case (Inl e)
        with run False st Inr Some res I2 show ?thesis by (auto simp: try_block_def)
      next
        case (Inr lp)
        obtain l p where lp: "lp = (l, p)" by (cases lp)
        let ?fin = "if number_ge p maxAttempts \<and> l \<notin> set TERMINAL_STATES
                    then emit W (runError events ''Polling timeout'' None) else return ()"
        have "keeps I ?fin" by (auto intro!: em builder_stamped keeps_return)
        moreover from run False st \<open>r1 = Inr u\<close> Some res Inr lp have "?fin s2 = (r, s')"
          by (simp add: try_block_def)
        ultimately show ?thesis using I2 keepsD by blast
      qed
    qed
  qed
qed

lemma background_keeps:
  assumes em: "\<And>build. (\<And>now. stamped events (build now)) \<Longrightarrow> keeps I (emit W build)"
    and uu: "keeps I (call (randomUUID W))"
    and gt: "keeps I (getTask W tid)"
    and sl: "keeps I (sleep intervalMs)"
    and sm: "\<And>params. message_taskId params = tid \<Longrightarrow> keeps I (sendMessage W params)"
    and cl: "keeps I sse_close"
    and I: "I s"
    and run: "background fuel W msgs events thread tid mid intervalMs maxAttempts s = Some s'"
  shows "I s'"
proof (cases "try_block fuel W msgs events thread tid mid intervalMs maxAttempts s")
  case None
  with run show ?thesis by (simp add: background_def)
next
  case (Some res)
  obtain r s1 where res: "res = (r, s1)" by (cases res)
  have I1: "I s1" using em uu gt sl sm I Some[unfolded res] by (rule try_block_keeps)
  let ?s2 = "case r of
      Inl error \<Rightarrow> snd (emit W (runError events (message_of error ''Unknown error'') None) s1)
    | Inr _ \<Rightarrow> s1"
  have I2: "I ?s2"
  proof (cases r)
    case (Inl error)
    have "keeps I (emit W (runError events (message_of error ''Unknown error'') None))"
      by (rule em) (rule builder_stamped)
    from keepsD[OF this I1 surjective_pairing] Inl show ?thesis by simp
  next
    case (Inr u)
    with I1 show ?thesis by simp
  qed
  from run Some res have "s' = snd (sse_close ?s2)" by (simp add: background_def)
  with keepsD[OF cl I2 surjective_pairing] show ?thesis by simp
qed

lemma all_stamped_emit:
  assumes "\<And>now. stamped events (build now)"
  shows "keeps (all_stamped events) (emit W build)"
  unfolding keeps_def
  by (rule tripleI) (use assms in \<open>auto simp: all_stamped_def dest!: emit_cases\<close>)

lemma all_stamped_others:
  "keeps (all_stamped events) (call (randomUUID W))"
  "keeps (all_stamped events) (getTask W tid)"
  "keeps (all_stamped events) (sleep ms)"
  "keeps (all_stamped events) (sendMessage W params)"
  "keeps (all_stamped events) sse_close"
  unfolding keeps_def
  by (rule tripleI;
      auto simp: all_stamped_def call_def randomUUID_def getTask_def sleep_def sendMessage_def
        sse_close_def writer_close_def split: option.splits if_splits)+

lemma background_all_stamped:
  assumes "all_stamped events s"
    and "background fuel W msgs events thread tid mid intervalMs maxAttempts s = Some s'"
  shows "all_stamped events s'"
  using all_stamped_emit all_stamped_others(1,2,3,4,5) assms
  by (rule background_keeps)

lemma handleAGUIRun_stream:
  assumes "handleAGUIRun fuel cfg W (JsonObject body) = StreamResponse r"
  shows "\<exists>thread msgs tid mid s0.
      AGUIRunRequest.thread_id body = Some thread \<and> thread \<noteq> [] \<and>
      messages body = Some msgs \<and> msgs \<noteq> [] \<and>
      taskId_of W body initial = (tid, s0) \<and> mid = uuids W (uuid_calls s0) \<and>
      r = background fuel W msgs \<lparr>threadId = thread, runId = tid\<rparr> thread tid mid
            (pollIntervalMs_of cfg body) (maxPollAttempts_of cfg body)
            (s0\<lparr>uuid_calls := Suc (uuid_calls s0)\<rparr>)"
proof -
  from assms have t: "truthy (AGUIRunRequest.thread_id body)"
    and m: "messages body \<noteq> None" "the (messages body) \<noteq> []"
    by (auto simp: handleAGUIRun_def split: if_splits)
  from t obtain thread where th: "AGUIRunRequest.thread_id body = Some thread" "thread \<noteq> []"
    by (cases "AGUIRunRequest.thread_id body") auto
  from m obtain msgs where ms: "messages body = Some msgs" "msgs \<noteq> []" by auto
  obtain tid s0 where ts: "taskId_of W body initial = (tid, s0)"
    by (cases "taskId_of W body initial")
  from assms th ms ts show ?thesis
    by (simp add: handleAGUIRun_def randomUUID_def)
qed

lemma taskId_of_initial:
  assumes "taskId_of W body initial = (tid, s0)"
  shows "chunks s0 = [] \<and> stream s0 = Writable \<and> sendMessage_calls s0 = [] \<and>
         getTask_calls s0 = [] \<and>
         (if truthy (AGUIRunRequest.run_id body)
          then AGUIRunRequest.run_id body = Some tid else tid = uuids W 0)"
  using assms
  by (cases "AGUIRunRequest.run_id body")
     (auto simp: taskId_of_def randomUUID_def initial_def split: if_splits)

lemma handleAGUIRun_validated:
  assumes "truthy (AGUIRunRequest.thread_id body)"
    and "messages body = Some msgs" and "msgs \<noteq> []"
  shows "\<exists>r. handleAGUIRun fuel cfg W (JsonObject body) = StreamResponse r"
  using assms by (simp add: handleAGUIRun_def Let_def case_prod_beta)

text \<open>A run that finds no user message.\<close>

lemma emit_refused:
  assumes "emit W build s = (Inl e, s')"
  shows "chunks s' = chunks s \<and> sendMessage_calls s' = sendMessage_calls s \<and>
         getTask_calls s' = getTask_calls s \<and> stream s' \<noteq> Writable"
  using emit_cases[OF assms] by auto

lemma emit_after_refusal:
  assumes "stream s \<noteq> Writable"
  shows "chunks (snd (emit W build s)) = chunks s \<and>
         sendMessage_calls (snd (emit W build s)) = sendMessage_calls s \<and>
         getTask_calls (snd (emit W build s)) = getTask_calls s"
  using assms
  by (simp add: emit_def and_then_def call_def Date_now_def sse_emit_def writer_write_def)

lemma sse_close_calls:
  "chunks (snd (sse_close s)) = chunks s \<and>
   sendMessage_calls (snd (sse_close s)) = sendMessage_calls s \<and>
   getTask_calls (snd (sse_close s)) = getTask_calls s \<and>
   stream (snd (sse_close s)) = (if stream s = Writable then Closed else stream s)"
  by (simp add: sse_close_def writer_close_def)

lemma background_no_user:
  assumes nouser: "\<forall>m \<in> set msgs. role m \<noteq> user"
    and start: "chunks s = []" "sendMessage_calls s = []" "stream s = Writable"
  shows "\<exists>s'. background fuel W msgs events thread tid mid intervalMs maxAttempts s = Some s' \<and>
      sendMessage_calls s' = [] \<and> getTask_calls s' = getTask_calls s \<and>
      (write_result W (writes s) = None \<longrightarrow>
         chunks s' = [runError events ''No user messages to send'' None (clock W (clock_calls s))]
         \<and> stream s' = Closed) \<and>
      (write_result W (writes s) \<noteq> None \<longrightarrow> chunks s' = [])"
proof -
  let ?em = "emit W (runError events ''No user messages to send'' None)"
  from nouser have f: "filter (\<lambda>m. role m = user) msgs = []" by (simp add: filter_empty_conv)
  obtain r s1 where em: "?em s = (r, s1)" by (cases "?em s")
  have tb: "try_block fuel W msgs events thread tid mid intervalMs maxAttempts s = Some (r, s1)"
    by (simp add: try_block_def f em)
  show ?thesis
  proof (cases "write_result W (writes s)")
    case None
    from emit_accepted[OF start(3) None, of "runError events ''No user messages to send'' None"] em
    have "r = Inr ()" and "s1 = s\<lparr>clock_calls := Suc (clock_calls s),
        chunks := chunks s @ [runError events ''No user messages to send'' None (clock W (clock_calls s))],
        writes := Suc (writes s)\<rparr>"
      by simp_all
    with tb start None show ?thesis
      by (simp add: background_def sse_close_def writer_close_def)
  next
    case (Some e)
    with em start have r: "\<exists>e. r = Inl e"
      by (auto simp: emit_def and_then_def call_def Date_now_def sse_emit_def writer_write_def)
    then obtain e' where r': "r = Inl e'" by blast
    note s1 = emit_refused[OF em[unfolded r']]
    from s1 have nw: "stream s1 \<noteq> Writable" by simp
    from tb r' emit_after_refusal[OF nw] s1 start Some show ?thesis
      by (simp add: background_def sse_close_calls)
  qed
qed

text \<open>The sample runs, evaluated.\<close>

lemma hello_run:
  "handleAGUIRun 2 default_config hello_world (JsonObject hi_request) = StreamResponse (Some hello_final)"
  by code_simp

lemma no_user_run:
  "handleAGUIRun 0 default_config hello_world (JsonObject assistant_only_request) =
     StreamResponse (Some no_user_final)"
  by code_simp

lemma refused_run:
  "background 2 refusing_world [\<lparr>role = user, content = ''hi''\<rparr>]
     \<lparr>threadId = ''t1'', runId = ''run-1''\<rparr> ''t1'' ''run-1'' ''msg-1'' (Num 500) (Num 120)
     (initial\<lparr>uuid_calls := 2\<rparr>) = Some refused_final"
  by code_simp

text \<open>The remote calls of a run.\<close>

lemma calls_for_keeps:
  "keeps (calls_for tid) (emit W build)"
  "keeps (calls_for tid) (call (randomUUID W))"
  "keeps (calls_for tid) (getTask W tid)"
  "keeps (calls_for tid) (sleep ms)"
  "message_taskId params = tid \<Longrightarrow> keeps (calls_for tid) (sendMessage W params)"
  "keeps (calls_for tid) sse_close"
  unfolding keeps_def
  by (rule tripleI;
      auto simp: calls_for_def call_def randomUUID_def getTask_def sleep_def sendMessage_def
        sse_close_def writer_close_def dest!: emit_cases split: option.splits if_splits)+

lemma background_calls_for:
  assumes "calls_for tid s"
    and "background fuel W msgs events thread tid mid intervalMs maxAttempts s = Some s'"
  shows "calls_for tid s'"
  using calls_for_keeps(1,2,3,4,5,6) assms
  by (rule background_keeps)

lemma handleAGUIRun_empty_run_id:
  "handleAGUIRun fuel cfg W (JsonObject (body\<lparr>AGUIRunRequest.run_id := Some ''''\<rparr>)) =
   handleAGUIRun fuel cfg W (JsonObject (body\<lparr>AGUIRunRequest.run_id := None\<rparr>))"
proof -
  have p: "pollIntervalMs_of cfg (body\<lparr>AGUIRunRequest.run_id := x\<rparr>) = pollIntervalMs_of cfg body"
    for x by (simp add: pollIntervalMs_of_def)
  have m: "maxPollAttempts_of cfg (body\<lparr>AGUIRunRequest.run_id := x\<rparr>) = maxPollAttempts_of cfg body"
    for x by (simp add: maxPollAttempts_of_def p split: option.splits)
  have t: "taskId_of W (body\<lparr>AGUIRunRequest.run_id := Some ''''\<rparr>) initial =
           taskId_of W (body\<lparr>AGUIRunRequest.run_id := None\<rparr>) initial"
    by (simp add: taskId_of_def)
  show ?thesis by (simp add: handleAGUIRun_def p m t)
qed

text \<open>The messages of a completed task, on a sink that accepts every write.\<close>

lemma message_events_append:
  "message_events W events u c (xs @ ys) =
   message_events W events u c xs @
   message_events W events (u + length xs) (c + 3 * length xs) ys"
  by (induction xs arbitrary: u c) (simp_all add: add.assoc)

lemma messages_only_refl: "stream s = Writable \<Longrightarrow> messages_only W events [] s s"
  by (simp add: messages_only_def)

lemma messages_only_trans:
  assumes "messages_only W events xs s s1" and "messages_only W events ys s1 s2"
  shows "messages_only W events (xs @ ys) s s2"
  using assms by (simp add: messages_only_def message_events_append algebra_simps)

lemma emit_part_accepted:
  assumes acc: "accepting W" and wr: "stream s = Writable"
  shows "\<exists>s'. (if kind part = Text \<and> truthy (text part) then
          and_then (call (randomUUID W)) (\<lambda>msgId.
          and_then (emit W (textMessageStart events msgId ''assistant'')) (\<lambda>_.
          and_then (emit W (textMessageContent events msgId (the (text part)))) (\<lambda>_.
          emit W (textMessageEnd events msgId))))
        else return ()) s = (Inr (), s') \<and>
      messages_only W events (List.map_filter text_of_part [part]) s s'"
proof (cases "text_of_part part")
  case None
  then have nc: "(kind part = Text \<and> truthy (text part)) = False"
    by (cases "text part") (auto simp: text_of_part_def split: if_splits)
  from None wr show ?thesis
    by (simp add: nc return_def messages_only_def del: truthy.simps)
next
  case (Some t)
  then have c: "(kind part = Text \<and> truthy (text part)) = True" and t: "the (text part) = t"
    by (cases "text part"; auto simp: text_of_part_def split: if_splits)+
  from acc have w: "\<And>k. write_result W k = None" by (simp add: accepting_def)
  show ?thesis
    using Some wr
    by (simp add: c t and_then_def call_def randomUUID_def emit_accepted w messages_only_def
        del: truthy.simps)
qed

lemma emit_parts_accepted:
  assumes acc: "accepting W"
  shows "stream s = Writable \<Longrightarrow>
    \<exists>s'. emit_parts W events ps s = (Inr (), s') \<and>
         messages_only W events (List.map_filter text_of_part ps) s s'"
proof (induction ps arbitrary: s)
  case Nil
  then show ?case by (simp add: return_def messages_only_def)
next
  case (Cons p ps)
  from emit_part_accepted[OF acc Cons.prems, of p events] obtain s1 where
    one: "(if kind p = Text \<and> truthy (text p) then
          and_then (call (randomUUID W)) (\<lambda>msgId.
          and_then (emit W (textMessageStart events msgId ''assistant'')) (\<lambda>_.
          and_then (emit W (textMessageContent events msgId (the (text p)))) (\<lambda>_.
          emit W (textMessageEnd events msgId))))
        else return ()) s = (Inr (), s1)"
    and m1: "messages_only W events (List.map_filter text_of_part [p]) s s1"
    by blast
  from m1 have "stream s1 = Writable" by (simp add: messages_only_def)
  from Cons.IH[OF this] obtain s2 where
    rest: "emit_parts W events ps s1 = (Inr (), s2)"
    and m2: "messages_only W events (List.map_filter text_of_part ps) s1 s2"
    by blast
  have "emit_parts W events (p # ps) s = (Inr (), s2)"
    using one rest by (simp add: and_then_def del: truthy.simps)
  moreover have "List.map_filter text_of_part (p # ps) =
      List.map_filter text_of_part [p] @ List.map_filter text_of_part ps"
    by (simp add: map_filter_def)
  ultimately show ?case using messages_only_trans[OF m1 m2] by auto
qed

lemma emit_artifacts_accepted:
  assumes acc: "accepting W"
  shows "stream s = Writable \<Longrightarrow>
    \<exists>s'. emit_artifacts W events as s = (Inr (), s') \<and>
         messages_only W events
           (concat (map (\<lambda>a. List.map_filter text_of_part (parts a)) as)) s s'"
proof (induction as arbitrary: s)
  case Nil
  then show ?case by (simp add: return_def messages_only_def)
next
  case (Cons a as)
  from emit_parts_accepted[OF acc Cons.prems, of events "parts a"] obtain s1 where
    one: "emit_parts W events (parts a) s = (Inr (), s1)"
    and m1: "messages_only W events (List.map_filter text_of_part (parts a)) s s1"
    by blast
  from m1 have "stream s1 = Writable" by (simp add: messages_only_def)
  from Cons.IH[OF this] obtain s2 where
    rest: "emit_artifacts W events as s1 = (Inr (), s2)"
    and m2: "messages_only W events
        (concat (map (\<lambda>a. List.map_filter text_of_part (parts a)) as)) s1 s2"
    by blast
  have "emit_artifacts W events (a # as) s = (Inr (), s2)"
    using one rest by (simp add: and_then_def)
  then show ?case using messages_only_trans[OF m1 m2] by auto
qed

lemma emitArtifactsAsMessages_accepted:
  assumes acc: "accepting W" and wr: "stream s = Writable"
  shows "\<exists>s'. emitArtifactsAsMessages W events task s = (Inr (), s') \<and>
         messages_only W events (text_bearing task) s s'"
proof (cases "artifacts task")
  case None
  with wr show ?thesis
    by (simp add: emitArtifactsAsMessages_def text_bearing_def return_def messages_only_def)
next
  case (Some as)
  show ?thesis
  proof (cases "as = []")
    case True
    with Some wr show ?thesis
      by (simp add: emitArtifactsAsMessages_def text_bearing_def return_def messages_only_def)
  next
    case False
    with Some emit_artifacts_accepted[OF acc wr, of events as] show ?thesis
      by (simp add: emitArtifactsAsMessages_def text_bearing_def)
  qed
qed

text \<open>Terminal events and the bound on the attempts.\<close>

lemma no_terminal_simps [simp]:
  "no_terminal []"
  "no_terminal (e # evs) = (\<not> terminal_event e \<and> no_terminal evs)"
  "no_terminal (xs @ ys) = (no_terminal xs \<and> no_terminal ys)"
  by (auto simp: no_terminal_def)

lemma one_terminal_last_snoc [simp]:
  "one_terminal_last (evs @ [e]) = (terminal_event e \<and> no_terminal evs)"
  by (auto simp: one_terminal_last_def)

lemma terminal_builder [simp]:
  "\<not> terminal_event (runStarted events now)"
  "terminal_event (runFinished events now)"
  "terminal_event (runError events msg code now)"
  "\<not> terminal_event (stateDelta events st now)"
  "\<not> terminal_event (textMessageStart events m r now)"
  "\<not> terminal_event (textMessageContent events m c now)"
  "\<not> terminal_event (textMessageEnd events m now)"
  by (simp_all add: terminal_event_def runStarted_def runFinished_def runError_def
      stateDelta_def textMessageStart_def textMessageContent_def textMessageEnd_def
      spread_def base_def)

lemma no_terminal_message_events [simp]: "no_terminal (message_events W events u c ts)"
  by (induction ts arbitrary: u c) simp_all

lemma number_lt_not_ge: "number_lt c n \<Longrightarrow> \<not> number_ge c n"
  by (cases n) auto

lemma number_not_lt_ge: "n \<noteq> NaN \<Longrightarrow> \<not> number_lt c n \<Longrightarrow> number_ge c n"
  by (cases n) auto

text \<open>Emissions and the terminal event, on any sink.\<close>

lemma emit_thrown_stream:
  assumes "emit W build s = (Inl e, s')"
  shows "stream s' = stream s \<or> stream s' = Errored"
  using assms
  by (auto simp: emit_def and_then_def call_def Date_now_def sse_emit_def writer_write_def
      split: if_splits option.splits)

lemma emit_running:
  assumes "\<And>now. \<not> terminal_event (build now)"
  shows "keeps running (emit W build)"
  unfolding keeps_def
proof (rule tripleI)
  fix s e s' assume "running s" and run: "emit W build s = (Inl e, s')"
  with emit_cases[OF run] emit_thrown_stream[OF run] show "running s'"
    by (auto simp: running_def)
next
  fix s x s' assume "running s" and run: "emit W build s = (Inr x, s')"
  with emit_cases[OF run] assms show "running s'"
    by (auto simp: running_def)
qed

lemma emit_finishing:
  assumes "\<And>now. terminal_event (build now)"
  shows "triple running (emit W build) (\<lambda>_. finished) running"
proof (rule tripleI)
  fix s e s' assume "running s" and run: "emit W build s = (Inl e, s')"
  with emit_cases[OF run] emit_thrown_stream[OF run] show "running s'"
    by (auto simp: running_def)
next
  fix s x s' assume "running s" and run: "emit W build s = (Inr x, s')"
  with emit_cases[OF run] assms show "finished s'"
    by (auto simp: running_def finished_def)
qed

lemma running_others:
  "keeps running (call (randomUUID W))"
  "keeps running (attempt (getTask W tid))"
  "keeps running (sendMessage W params)"
  "keeps running (sleep ms)"
  unfolding keeps_def
  by (rule tripleI;
      auto simp: running_def call_def randomUUID_def attempt_def getTask_def sendMessage_def
        sleep_def
        split: option.splits)+

lemma emitArtifactsAsMessages_running:
  "keeps running (emitArtifactsAsMessages W events task)"
  by (rule emitArtifactsAsMessages_keeps[where B = "\<lambda>build. \<forall>now. \<not> terminal_event (build now)"])
     (simp_all add: emit_running running_others)

lemma terminal_state_cases:
  "st \<in> set TERMINAL_STATES \<Longrightarrow> st = ''completed'' \<or> st = ''failed'' \<or> st = ''canceled''"
  by (auto simp: TERMINAL_STATES_def)

lemma handle_terminal_running:
  assumes tm: "cur \<in> set TERMINAL_STATES"
  shows "triple running
     (if cur = ''completed'' then
        and_then (emitArtifactsAsMessages W events task) (\<lambda>_. emit W (runFinished events))
      else if cur = ''failed'' then emit W (runError events ''Task failed'' None)
      else if cur = ''canceled'' then emit W (runError events ''Task canceled'' (Some (- 32000)))
      else return ())
     (\<lambda>_. finished) running"
  using terminal_state_cases[OF tm]
  by (auto intro!: triple_and_then[where R = "\<lambda>_. running"] emit_finishing
        emitArtifactsAsMessages_running[unfolded keeps_def])

lemma poll_iteration_running:
  "triple running (poll_iteration W events tid intervalMs lastState) iteration_post running"
  unfolding poll_iteration_def
proof (rule triple_and_then[OF running_others(4)[unfolded keeps_def]],
    rule triple_and_then[OF running_others(2)[unfolded keeps_def]])
  fix u :: unit and got :: "thrown + BinduTask"
  show "triple running
     (case got of
        Inl error \<Rightarrow>
          and_then (emit W (runError events (message_of error ''Failed to get task status'') None))
            (\<lambda>_. return (Break, lastState))
      | Inr currentTask \<Rightarrow>
          let currentState = state (status currentTask) in
          and_then
            (if currentState \<noteq> lastState then
               and_then (emit W (stateDelta events currentState)) (\<lambda>_. return currentState)
             else return lastState)
            (\<lambda>lastState.
               if currentState \<in> set TERMINAL_STATES then
                 and_then
                   (if currentState = ''completed'' then
                      and_then (emitArtifactsAsMessages W events currentTask) (\<lambda>_.
                      emit W (runFinished events))
                    else if currentState = ''failed'' then
                      emit W (runError events ''Task failed'' None)
                    else if currentState = ''canceled'' then
                      emit W (runError events ''Task canceled'' (Some (- 32000)))
                    else return ())
                   (\<lambda>_. return (Break, lastState))
               else return (Next, lastState)))
     iteration_post running"
  proof (cases got)
    case (Inl error)
    show ?thesis
      unfolding Inl sum.case
      by (intro triple_and_then[where R = "\<lambda>_. finished"] emit_finishing triple_return)
         (simp_all add: iteration_post_def)
  next
    case (Inr task)
    let ?cur = "state (status task)"
    have delta: "triple running
        (if ?cur \<noteq> lastState then
           and_then (emit W (stateDelta events ?cur)) (\<lambda>_. return ?cur)
         else return lastState)
        (\<lambda>ls s. running s \<and> ls = ?cur) running"
      by (auto intro!: triple_and_then[where R = "\<lambda>_. running"] triple_return
            emit_running[unfolded keeps_def])
    have rest: "triple (\<lambda>s. running s \<and> ls = ?cur)
        (if ?cur \<in> set TERMINAL_STATES then
           and_then
             (if ?cur = ''completed'' then
                and_then (emitArtifactsAsMessages W events task) (\<lambda>_.
                emit W (runFinished events))
              else if ?cur = ''failed'' then emit W (runError events ''Task failed'' None)
              else if ?cur = ''canceled'' then
                emit W (runError events ''Task canceled'' (Some (- 32000)))
              else return ())
             (\<lambda>_. return (Break, ls))
         else return (Next, ls))
        iteration_post running" for ls
    proof (cases "?cur \<in> set TERMINAL_STATES")
      case True
      have "triple (\<lambda>s. running s \<and> ls = ?cur)
          (if ?cur = ''completed'' then
             and_then (emitArtifactsAsMessages W events task) (\<lambda>_. emit W (runFinished events))
           else if ?cur = ''failed'' then emit W (runError events ''Task failed'' None)
           else if ?cur = ''canceled'' then
             emit W (runError events ''Task canceled'' (Some (- 32000)))
           else return ())
          (\<lambda>_. finished) running"
        by (rule triple_weaken[OF handle_terminal_running[OF True]]) simp_all
      then show ?thesis
        unfolding if_P[OF True]
        by (rule triple_and_then) (rule triple_return, simp add: iteration_post_def)
    next
      case False
      then show ?thesis
        by (auto intro!: triple_return simp: iteration_post_def)
    qed
    show ?thesis
      unfolding Inr sum.case Let_def
      by (rule triple_and_then[OF delta rest])
  qed
qed

text \<open>What the loop, the \<open>try\<close> block and the whole task leave on the stream.\<close>

lemma poll_loop_running:
  assumes nn: "maxAttempts \<noteq> NaN"
  shows "running s \<Longrightarrow> lastState \<notin> set TERMINAL_STATES \<Longrightarrow>
    poll_loop fuel W events tid intervalMs maxAttempts lastState pollCount s = Some (r, s') \<Longrightarrow>
    loop_post maxAttempts r s'"
proof (induction fuel arbitrary: lastState pollCount s)
  case 0
  then show ?case by simp
next
  case (Suc fuel)
  show ?case
  proof (cases "number_lt pollCount maxAttempts")
    case False
    with Suc.prems number_not_lt_ge[OF nn False] show ?thesis by (auto simp: loop_post_def)
  next
    case True
    obtain r1 s1 where run: "poll_iteration W events tid intervalMs lastState s = (r1, s1)"
      by (cases "poll_iteration W events tid intervalMs lastState s")
    note it = poll_iteration_running[of W events tid intervalMs lastState]
    show ?thesis
    proof (cases r1)
      case (Inl e)
      with tripleD_thrown[OF it Suc.prems(1)] run Suc.prems(3) True show ?thesis
        by (auto simp: loop_post_def)
    next
      case (Inr cl)
      obtain c l where cl: "cl = (c, l)" by (cases cl)
      from tripleD_ok[OF it Suc.prems(1)] run Inr cl have post: "iteration_post (c, l) s1"
        by simp
      show ?thesis
      proof (cases c)
        case Break
        with post have "finished s1" by (simp add: iteration_post_def)
        with Suc.prems(3) True run Inr cl Break number_lt_not_ge[OF True] show ?thesis
          by (auto simp: loop_post_def)
      next
        case Next
        with post have r1: "running s1" and l: "l \<notin> set TERMINAL_STATES"
          by (simp_all add: iteration_post_def)
        from Suc.prems(3) True run Inr cl Next
        have "poll_loop fuel W events tid intervalMs maxAttempts l (increment pollCount) s1 = Some (r, s')"
          by simp
        from Suc.IH[OF r1 l this] show ?thesis .
      qed
    qed
  qed
qed

lemma submitted_not_terminal: "''submitted'' \<notin> set TERMINAL_STATES"
  by (simp add: TERMINAL_STATES_def)

lemma try_block_running:
  assumes nn: "maxAttempts \<noteq> NaN"
    and start: "running s"
    and run: "try_block fuel W msgs events thread tid mid intervalMs maxAttempts s = Some (r, s')"
  shows "(r = Inr () \<and> finished s') \<or> ((\<exists>e. r = Inl e) \<and> running s')"
proof (cases "length (filter (\<lambda>m. role m = user) msgs) = 0")
  case True
  with run have em: "emit W (runError events ''No user messages to send'' None) s = (r, s')"
    by (simp add: try_block_def)
  have "triple running (emit W (runError events ''No user messages to send'' None))
      (\<lambda>_. finished) running"
    by (rule emit_finishing) simp
  from tripleD_ok[OF this start] tripleD_thrown[OF this start] em show ?thesis
    by (cases r) auto
next
  case False
  let ?start = "and_then
     (sendMessage W \<lparr>message_parts = map content (filter (\<lambda>m. role m = user) msgs),
        message_messageId = mid, message_contextId = thread, message_taskId = tid\<rparr>)
     (\<lambda>_. emit W (runStarted events))"
  have "keeps running ?start"
    by (intro keeps_and_then running_others(3) emit_running) simp
  obtain r1 s1 where st: "?start s = (r1, s1)" by (cases "?start s")
  from keepsD[OF \<open>keeps running ?start\<close> start st] have run1: "running s1" .
  show ?thesis
  proof (cases r1)
    case (Inl e)
    with run False st run1 show ?thesis by (auto simp: try_block_def)
  next
    case (Inr u)
    show ?thesis
    proof (cases "poll_loop fuel W events tid intervalMs maxAttempts ''submitted'' 0 s1")
      case None
      with run False st Inr show ?thesis by (simp add: try_block_def)
    next
      case (Some res)
      obtain r2 s2 where res: "res = (r2, s2)" by (cases res)
      from poll_loop_running[OF nn run1 submitted_not_terminal Some[unfolded res]]
      have post: "loop_post maxAttempts r2 s2" .
      show ?thesis
      proof (cases r2)
        case (Inl e)
        with post run False st Inr Some res show ?thesis
          by (auto simp: try_block_def loop_post_def)
      next
        case r2: (Inr lp)
        obtain ls pc where lp: "lp = (ls, pc)" by (cases lp)
        let ?fin = "if number_ge pc maxAttempts \<and> ls \<notin> set TERMINAL_STATES
                    then emit W (runError events ''Polling timeout'' None) else return ()"
        from run False st Inr Some res r2 lp have fin: "?fin s2 = (r, s')"
          by (simp add: try_block_def)
        from post r2 lp
        have out: "(finished s2 \<and> \<not> number_ge pc maxAttempts) \<or>
           (running s2 \<and> ls \<notin> set TERMINAL_STATES \<and> number_ge pc maxAttempts)"
          by (simp add: loop_post_def)
        then show ?thesis
        proof
          assume "finished s2 \<and> \<not> number_ge pc maxAttempts"
          with fin show ?thesis by (simp add: return_def)
        next
          assume a: "running s2 \<and> ls \<notin> set TERMINAL_STATES \<and> number_ge pc maxAttempts"
          have tmo: "triple running (emit W (runError events ''Polling timeout'' None))
              (\<lambda>_. finished) running"
            by (rule emit_finishing) simp
          from a fin have em: "emit W (runError events ''Polling timeout'' None) s2 = (r, s')"
            by simp
          from a have r2: "running s2" by simp
          from tripleD_ok[OF tmo r2] tripleD_thrown[OF tmo r2] em show ?thesis
            by (cases r) auto
        qed
      qed
    qed
  qed
qed

lemma background_finished:
  assumes nn: "maxAttempts \<noteq> NaN"
    and start: "running s"
    and run: "background fuel W msgs events thread tid mid intervalMs maxAttempts s = Some s'"
  shows "stream s' = Errored \<or> (stream s' = Closed \<and> one_terminal_last (chunks s'))"
proof (cases "try_block fuel W msgs events thread tid mid intervalMs maxAttempts s")
  case None
  with run show ?thesis by (simp add: background_def)
next
  case (Some res)
  obtain r s1 where res: "res = (r, s1)" by (cases res)
  let ?s2 = "case r of
      Inl error \<Rightarrow> snd (emit W (runError events (message_of error ''Unknown error'') None) s1)
    | Inr _ \<Rightarrow> s1"
  from run Some res have s': "s' = snd (sse_close ?s2)" by (simp add: background_def)
  have "finished ?s2"
  proof (cases r)
    case (Inr u)
    with try_block_running[OF nn start Some[unfolded res]] show ?thesis by simp
  next
    case (Inl error)
    with try_block_running[OF nn start Some[unfolded res]] have run1: "running s1" by simp
    let ?em = "emit W (runError events (message_of error ''Unknown error'') None)"
    have t: "triple running ?em (\<lambda>_. finished) running"
      by (rule emit_finishing) simp
    obtain r3 s3 where em: "?em s1 = (r3, s3)" by (cases "?em s1")
    have "finished s3"
    proof (cases r3)
      case (Inr x)
      with tripleD_ok[OF t run1] em show ?thesis by simp
    next
      case (Inl e)
      with emit_cases[OF em] emit_thrown_stream[of W _ s1 e s3] em run1 show ?thesis
        by (auto simp: running_def finished_def)
    qed
    with Inl em show ?thesis by simp
  qed
  with s' show ?thesis
    by (auto simp: finished_def sse_close_def writer_close_def)
qed

text \<open>A sink that accepts every write never leaves the stream errored.\<close>

lemma intact_keeps:
  "accepting W \<Longrightarrow> keeps (\<lambda>s. stream s \<noteq> Errored) (emit W build)"
  "keeps (\<lambda>s. stream s \<noteq> Errored) (call (randomUUID W))"
  "keeps (\<lambda>s. stream s \<noteq> Errored) (getTask W tid)"
  "keeps (\<lambda>s. stream s \<noteq> Errored) (sleep ms)"
  "keeps (\<lambda>s. stream s \<noteq> Errored) (sendMessage W params)"
  "keeps (\<lambda>s. stream s \<noteq> Errored) sse_close"
  unfolding keeps_def
  by (rule tripleI;
      auto simp: accepting_def emit_def and_then_def Date_now_def sse_emit_def writer_write_def
        call_def randomUUID_def getTask_def sleep_def sendMessage_def sse_close_def
        writer_close_def
        split: option.splits if_splits)+

lemma background_intact:
  assumes "accepting W" and "stream s \<noteq> Errored"
    and "background fuel W msgs events thread tid mid intervalMs maxAttempts s = Some s'"
  shows "stream s' \<noteq> Errored"
  using intact_keeps(1)[OF assms(1)] intact_keeps(2,3,4,5,6) assms(2,3)
  by (rule background_keeps[where I = "\<lambda>s. stream s \<noteq> Errored"])

lemma one_terminal_last_count:
  assumes "one_terminal_last evs"
  shows "length (filter terminal_event evs) = 1"
proof -
  from assms obtain pre t where "evs = pre @ [t]" "terminal_event t" "no_terminal pre"
    by (cases evs rule: rev_cases) (auto simp: one_terminal_last_def)
  then show ?thesis by (simp add: no_terminal_def)
qed

text \<open>With a finite bound on the attempts that the counter can reach, enough fuel lets
  the run end.\<close>

lemma number_lt_mono: "c \<le> d \<Longrightarrow> number_lt d n \<Longrightarrow> number_lt c n"
  by (cases n) auto

lemma increment_below: "real c < m \<Longrightarrow> m \<le> 2 ^ 53 \<Longrightarrow> increment c = Suc c"
proof -
  assume "real c < m" and "m \<le> 2 ^ 53"
  then have "real c < 2 ^ 53" by linarith
  then have "int c < 2 ^ 53" by (metis of_int_less_iff of_int_numeral of_int_of_nat_eq of_int_power)
  then show ?thesis by (simp add: increment_def)
qed

lemma poll_loop_completes:
  assumes small: "m \<le> 2 ^ 53"
  shows "nat \<lceil>m\<rceil> - pollCount < fuel \<Longrightarrow>
   poll_loop fuel W events tid intervalMs (Num m) lastState pollCount s \<noteq> None"
proof (induction fuel arbitrary: lastState pollCount s)
  case 0
  then show ?case by simp
next
  case (Suc fuel)
  show ?case
  proof (cases "real pollCount < m")
    case False
    then show ?thesis by simp
  next
    case True
    have "m \<le> real_of_int \<lceil>m\<rceil>" by (rule le_of_int_ceiling)
    with True have "int pollCount < \<lceil>m\<rceil>" by linarith
    then have "pollCount < nat \<lceil>m\<rceil>" by linarith
    with Suc.prems have "nat \<lceil>m\<rceil> - Suc pollCount < fuel" by linarith
    from Suc.IH[OF this] True show ?thesis
      by (auto simp: increment_below[OF True small] split: prod.splits sum.splits control.splits)
  qed
qed

lemma background_completes:
  assumes "nat \<lceil>m\<rceil> < fuel" and small: "m \<le> 2 ^ 53"
  shows "background fuel W msgs events thread tid mid intervalMs (Num m) s \<noteq> None"
proof -
  from assms(1) have "nat \<lceil>m\<rceil> - 0 < fuel" by simp
  from poll_loop_completes[OF small this]
  have pl: "poll_loop fuel W events tid intervalMs (Num m) ''submitted'' 0 s1 \<noteq> None" for s1 .
  have "try_block fuel W msgs events thread tid mid intervalMs (Num m) s \<noteq> None"
  proof (cases "length (filter (\<lambda>m. role m = user) msgs) = 0")
    case True
    then show ?thesis by (simp add: try_block_def)
  next
    case False
    let ?start = "and_then
       (sendMessage W \<lparr>message_parts = map content (filter (\<lambda>m. role m = user) msgs),
          message_messageId = mid, message_contextId = thread, message_taskId = tid\<rparr>)
       (\<lambda>_. emit W (runStarted events))"
    obtain r1 s1 where st: "?start s = (r1, s1)" by (cases "?start s")
    from pl[of s1] obtain r2 s2 where
      "poll_loop fuel W events tid intervalMs (Num m) ''submitted'' 0 s1 = Some (r2, s2)"
      by auto
    with False st show ?thesis
      by (cases r1; cases r2) (auto simp: try_block_def)
  qed
  then show ?thesis
    by (auto simp: background_def split: prod.splits option.splits)
qed

lemma handleAGUIRun_completes:
  assumes "truthy (AGUIRunRequest.thread_id body)" and "messages body = Some msgs"
    and "msgs \<noteq> []"
    and "maxPollAttempts_of cfg body = Num m" and "m \<le> 2 ^ 53" and "nat \<lceil>m\<rceil> < fuel"
  shows "\<exists>s. handleAGUIRun fuel cfg W (JsonObject body) = StreamResponse (Some s)"
proof -
  from handleAGUIRun_validated[OF assms(1,2,3)]
  obtain r where r: "handleAGUIRun fuel cfg W (JsonObject body) = StreamResponse r" by blast
  from handleAGUIRun_stream[OF r] assms(4) background_completes[OF assms(6,5)] have "r \<noteq> None"
    by auto
  with r show ?thesis by auto
qed

lemma timed_run:
  "handleAGUIRun 5 default_config hello_world (JsonObject timed_request) =
     StreamResponse (Some timed_final)"
  by code_simp

lemma exhausted_run:
  "handleAGUIRun 5 default_config working_world (JsonObject timed_request) =
     StreamResponse (Some exhausted_final)"
  by code_simp

lemma overflow_run:
  "handleAGUIRun 1 default_config hello_world (JsonObject overflow_request) =
     StreamResponse (Some started_only)"
  by code_simp

text \<open>Rounding to a double: the exponent of a positive number brackets it, and the
  rounded value is within half a unit in the last place.\<close>

lemma two_to_double: "2 * two_to e = two_to (e + 1)"
proof (cases "0 \<le> e")
  case True
  then show ?thesis by (simp add: two_to_def nat_add_distrib)
next
  case False
  then have "nat (- e) = Suc (nat (- e - 1))" by simp
  with False show ?thesis
    by (cases "e = - 1") (simp_all add: two_to_def)
qed

lemma exponent_bounds:
  assumes "0 < x"
  shows "two_to (exponent x) \<le> x \<and> x < 2 * two_to (exponent x)"
proof (cases "1 \<le> x")
  case True
  let ?n = "\<lfloor>x\<rfloor>"
  from True have n: "0 < ?n" by simp
  from bitlen_bounds[OF n] have lo: "2 ^ nat (bitlen ?n - 1) \<le> ?n" and hi: "?n < 2 ^ nat (bitlen ?n)"
    by simp_all
  from n have b: "1 \<le> bitlen ?n" by (simp add: bitlen_alt_def)
  then have e: "exponent x = bitlen ?n - 1" "0 \<le> bitlen ?n - 1"
    using True by (simp_all add: exponent_def)
  have "real_of_int (2 ^ nat (bitlen ?n - 1)) \<le> real_of_int ?n" using lo by (simp only: of_int_le_iff)
  also have "\<dots> \<le> x" by simp
  finally have 1: "two_to (exponent x) \<le> x" using e by (simp add: two_to_def)
  from hi have "?n + 1 \<le> 2 ^ nat (bitlen ?n)" by simp
  then have "real_of_int (?n + 1) \<le> real_of_int (2 ^ nat (bitlen ?n))" by (simp only: of_int_le_iff)
  then have "real_of_int ?n + 1 \<le> 2 ^ nat (bitlen ?n)" by simp
  moreover have "x < real_of_int ?n + 1" by linarith
  ultimately have "x < 2 ^ nat (bitlen ?n)" by linarith
  also have "nat (bitlen ?n) = Suc (nat (bitlen ?n - 1))" using b by simp
  finally have 2: "x < 2 * two_to (exponent x)" using e by (simp add: two_to_def)
  from 1 2 show ?thesis ..
next
  case False
  let ?c = "\<lceil>1 / x\<rceil> - 1"
  let ?k = "bitlen ?c"
  from False assms have y: "1 < 1 / x" by simp
  then have c: "0 < ?c" by linarith
  from bitlen_bounds[OF c] have lo: "2 ^ nat (?k - 1) \<le> ?c" and hi: "?c < 2 ^ nat ?k"
    by simp_all
  from c have k: "1 \<le> ?k" by (simp add: bitlen_alt_def)
  with False have e: "exponent x = - ?k" by (simp add: exponent_def)
  from k have tt: "two_to (- ?k) = 1 / 2 ^ nat ?k" by (simp add: two_to_def)
  from hi have "?c + 1 \<le> 2 ^ nat ?k" by simp
  then have "real_of_int (?c + 1) \<le> real_of_int (2 ^ nat ?k)" by (simp only: of_int_le_iff)
  then have "real_of_int ?c + 1 \<le> 2 ^ nat ?k" by simp
  moreover have "1 / x \<le> real_of_int ?c + 1" by simp
  ultimately have "1 / x \<le> 2 ^ nat ?k" by linarith
  with assms have 1: "1 / 2 ^ nat ?k \<le> x"
    by (simp add: field_simps)
  have "real_of_int (2 ^ nat (?k - 1)) \<le> real_of_int ?c" using lo by (simp only: of_int_le_iff)
  then have "2 ^ nat (?k - 1) \<le> real_of_int ?c" by simp
  moreover have "real_of_int ?c < 1 / x" by simp linarith
  ultimately have "2 ^ nat (?k - 1) < 1 / x" by linarith
  with assms have "x < 1 / 2 ^ nat (?k - 1)" by (simp add: field_simps)
  also have "\<dots> = 2 * (1 / 2 ^ nat ?k)"
  proof -
    from k have "nat ?k = Suc (nat (?k - 1))" by simp
    then show ?thesis by simp
  qed
  finally have 2: "x < 2 * (1 / 2 ^ nat ?k)" .
  from 1 2 e tt show ?thesis by simp
qed

lemma round_half_even_nearest: "\<bar>real_of_int (round_half_even x) - x\<bar> \<le> 1 / 2"
  by (auto simp: round_half_even_def Let_def)

lemma two_to_positive: "0 < two_to e"
  by (simp add: two_to_def)

lemma nearest_double_error:
  "\<bar>nearest_double x - x\<bar> \<le> two_to (max (exponent x) (- 1022) - 52) / 2"
proof -
  let ?q = "two_to (max (exponent x) (- 1022) - 52)"
  have q: "0 < ?q" by (rule two_to_positive)
  have "nearest_double x - x = (real_of_int (round_half_even (x / ?q)) - x / ?q) * ?q"
    using q by (simp add: nearest_double_def Let_def algebra_simps)
  then have "\<bar>nearest_double x - x\<bar> = \<bar>real_of_int (round_half_even (x / ?q)) - x / ?q\<bar> * ?q"
    using q by (simp add: abs_mult)
  also have "\<dots> \<le> 1 / 2 * ?q"
    using q round_half_even_nearest[of "x / ?q"] by (intro mult_right_mono) simp_all
  finally show ?thesis by simp
qed

text \<open>The division at work: a quotient that rounds down to a whole number, a quotient
  that is no double, a negative zero as divisor, and two infinities.\<close>

lemma number_div_examples:
  "number_div (Num 13800000000000004) (Num 4600000000000001) = Num 3"
  "Math_ceil (number_div (Num 1000) (Num 300)) = Num 4"
  "number_div (Num 1000) NegZero = NegInfinity"
  "number_div PosInfinity PosInfinity = NaN"
  by code_simp+

text \<open>Status queries and state deltas, on any sink.\<close>

lemma state_deltas_simps [simp]:
  "state_deltas [] = []"
  "state_deltas (xs @ ys) = state_deltas xs @ state_deltas ys"
  "state_deltas [stateDelta events st now] = [st]"
  "no_delta build \<Longrightarrow> state_deltas [build now] = []"
  by (simp_all add: state_deltas_def bindu_state_def stateDelta_def spread_def base_def
      no_delta_def)

lemma no_delta_builder [simp]:
  "no_delta (runStarted events)"
  "no_delta (runFinished events)"
  "no_delta (runError events msg code)"
  "no_delta (textMessageStart events m r)"
  "no_delta (textMessageContent events m c)"
  "no_delta (textMessageEnd events m)"
  by (simp_all add: no_delta_def runStarted_def runFinished_def runError_def
      textMessageStart_def textMessageContent_def textMessageEnd_def spread_def base_def)

lemma observed_Suc:
  "observed W (Suc n) =
   observed W n @ (case getTask_result W n of Inr task \<Rightarrow> [state (status task)] | Inl _ \<Rightarrow> [])"
  by (simp add: observed_def)

lemma observed_0 [simp]: "observed W 0 = []"
  by (simp add: observed_def)

lemma state_changes_snoc:
  "state_changes prev (xs @ [x]) =
   state_changes prev xs @ (if x \<noteq> last (prev # xs) then [x] else [])"
  by (induction xs arbitrary: prev) auto

lemma distinct_adj_state_changes: "distinct_adj (prev # state_changes prev xs)"
  by (induction xs arbitrary: prev) auto

lemma polled_emit:
  assumes "no_delta build"
  shows "keeps (polled W) (emit W build)"
  unfolding keeps_def
proof (rule tripleI)
  fix s e s' assume p: "polled W s" and run: "emit W build s = (Inl e, s')"
  from emit_cases[OF run] emit_thrown_stream[OF run] p show "polled W s'"
    by (auto simp: polled_def deltas_ok_def)
next
  fix s x s' assume p: "polled W s" and run: "emit W build s = (Inr x, s')"
  from emit_cases[OF run] p assms show "polled W s'"
    by (auto simp: polled_def deltas_ok_def)
qed

lemma polled_others:
  "keeps (polled W) (call (randomUUID W))"
  "keeps (polled W) sse_close"
  unfolding keeps_def
  by (rule tripleI;
      auto simp: polled_def deltas_ok_def call_def randomUUID_def sse_close_def writer_close_def
        split: if_splits)+

lemma fresh_emit:
  assumes "no_delta build"
  shows "keeps fresh (emit W build)"
  unfolding keeps_def
proof (rule tripleI)
  fix s e s' assume p: "fresh s" and run: "emit W build s = (Inl e, s')"
  from emit_cases[OF run] emit_thrown_stream[OF run] p show "fresh s'"
    by (auto simp: fresh_def)
next
  fix s x s' assume p: "fresh s" and run: "emit W build s = (Inr x, s')"
  from emit_cases[OF run] p assms show "fresh s'"
    by (auto simp: fresh_def)
qed

lemma fresh_sendMessage: "keeps fresh (sendMessage W params)"
  unfolding keeps_def
  by (rule tripleI; auto simp: fresh_def sendMessage_def split: option.splits)

lemma fresh_polling: "fresh s \<Longrightarrow> polling W ''submitted'' s"
  by (simp add: fresh_def polling_def polls_ok_def deltas_ok_def)

lemma fresh_polled: "fresh s \<Longrightarrow> polled W s"
  by (simp add: fresh_def polled_def polls_ok_def deltas_ok_def)

lemma polling_polled: "polling W lastState s \<Longrightarrow> polled W s"
  by (simp add: polling_def polled_def polls_ok_def)

lemma queried_failed_polled: "queried W lastState (Inl error) s \<Longrightarrow> polled W s"
proof -
  assume q: "queried W lastState (Inl error) s"
  then obtain n where n: "length (getTask_calls s) = Suc n"
    by (cases "getTask_calls s") (auto simp: queried_def)
  with q have "getTask_result W n = Inl error" by (simp add: queried_def)
  then have "observed W (Suc n) = observed W n" by (simp add: observed_Suc)
  with q n show ?thesis by (simp add: queried_def polled_def deltas_ok_def)
qed

lemma compared_polled: "compared W task s \<Longrightarrow> polled W s"
  by (simp add: compared_def polled_def)

lemma compared_polling:
  assumes "compared W task s" and "state (status task) \<notin> set TERMINAL_STATES"
  shows "polling W (state (status task)) s"
proof -
  from assms(1) obtain n where n: "length (getTask_calls s) = Suc n"
    by (cases "getTask_calls s") (auto simp: compared_def)
  with assms(1) have got: "getTask_result W n = Inr task" and ok: "polls_ok W n"
    by (simp_all add: compared_def)
  from got assms(2) have "nonterminal_poll W n" by (simp add: nonterminal_poll_def)
  with ok have "polls_ok W (Suc n)" by (auto simp: polls_ok_def less_Suc_eq)
  moreover from got have "last (''submitted'' # observed W (Suc n)) = state (status task)"
    by (simp add: observed_Suc)
  ultimately show ?thesis using assms(1) n by (simp add: compared_def polling_def)
qed

lemma getTask_queried:
  "triple (polling W lastState) (attempt (getTask W tid)) (queried W lastState) (polled W)"
  by (rule tripleI) (auto simp: attempt_def getTask_def polling_def queried_def deltas_ok_def)

lemma sleep_polling:
  "triple (polling W lastState) (sleep ms) (\<lambda>_. polling W lastState) (polled W)"
  by (rule tripleI) (auto simp: sleep_def polling_def deltas_ok_def)

text \<open>The comparison with the last state, when the states differ and when they do not.\<close>

lemma emit_delta_compared:
  assumes diff: "state (status task) \<noteq> lastState"
  shows "triple (queried W lastState (Inr task))
     (emit W (stateDelta events (state (status task)))) (\<lambda>_. compared W task) (polled W)"
proof (rule tripleI)
  fix s e s'
  assume q: "queried W lastState (Inr task) s"
    and run: "emit W (stateDelta events (state (status task))) s = (Inl e, s')"
  from q obtain n where n: "length (getTask_calls s) = Suc n"
    by (cases "getTask_calls s") (auto simp: queried_def)
  from q n have got: "getTask_result W n = Inr task" by (simp add: queried_def)
  from emit_cases[OF run] emit_thrown_stream[OF run] q have "stream s' = Errored"
    by (cases "stream s") (auto simp: queried_def)
  moreover from q n have "prefix (state_deltas (chunks s)) (state_changes ''submitted'' (observed W n))"
    by (simp add: queried_def deltas_ok_def)
  then have "prefix (state_deltas (chunks s)) (state_changes ''submitted'' (observed W (Suc n)))"
    by (simp add: observed_Suc got state_changes_snoc)
  ultimately show "polled W s'"
    using emit_cases[OF run] q n by (auto simp: polled_def queried_def deltas_ok_def)
next
  fix s x s'
  assume q: "queried W lastState (Inr task) s"
    and run: "emit W (stateDelta events (state (status task))) s = (Inr x, s')"
  from q obtain n where n: "length (getTask_calls s) = Suc n"
    by (cases "getTask_calls s") (auto simp: queried_def)
  from q n have got: "getTask_result W n = Inr task"
    and ls: "lastState = last (''submitted'' # observed W n)"
    by (simp_all add: queried_def)
  from emit_cases[OF run] have wr: "stream s = Writable" "stream s' = Writable"
    and ch: "chunks s' = chunks s @ [stateDelta events (state (status task)) (clock W (clock_calls s))]"
    and gc: "getTask_calls s' = getTask_calls s"
    by auto
  from q n wr have "state_deltas (chunks s) = state_changes ''submitted'' (observed W n)"
    by (simp add: queried_def deltas_ok_def)
  with diff ls have "state_deltas (chunks s') = state_changes ''submitted'' (observed W (Suc n))"
    by (simp add: ch observed_Suc got state_changes_snoc)
  with q n wr gc got show "compared W task s'"
    by (simp add: compared_def queried_def deltas_ok_def)
qed

lemma same_state_compared:
  assumes "queried W lastState (Inr task) s" and "state (status task) = lastState"
  shows "compared W task s"
proof -
  from assms(1) obtain n where n: "length (getTask_calls s) = Suc n"
    by (cases "getTask_calls s") (auto simp: queried_def)
  from assms(1) n have got: "getTask_result W n = Inr task"
    and ls: "lastState = last (''submitted'' # observed W n)"
    by (simp_all add: queried_def)
  from assms(2) ls
  have "state_changes ''submitted'' (observed W (Suc n)) = state_changes ''submitted'' (observed W n)"
    by (simp add: observed_Suc got state_changes_snoc)
  with assms(1) n got show ?thesis
    by (simp add: compared_def queried_def deltas_ok_def)
qed

lemma compare_step:
  "triple (queried W lastState (Inr task))
     (if state (status task) \<noteq> lastState then
        and_then (emit W (stateDelta events (state (status task))))
          (\<lambda>_. return (state (status task)))
      else return lastState)
     (\<lambda>ls s. ls = state (status task) \<and> compared W task s) (polled W)"
proof (cases "state (status task) \<noteq> lastState")
  case True
  show ?thesis
    unfolding if_P[OF True]
    by (rule triple_and_then[OF emit_delta_compared[OF True]]) (rule triple_return, simp)
next
  case False
  then show ?thesis
    by (auto intro!: triple_return same_state_compared)
qed

lemma handle_terminal_polled:
  "keeps (polled W)
     (if cur = ''completed'' then
        and_then (emitArtifactsAsMessages W events task) (\<lambda>_. emit W (runFinished events))
      else if cur = ''failed'' then emit W (runError events ''Task failed'' None)
      else if cur = ''canceled'' then emit W (runError events ''Task canceled'' (Some (- 32000)))
      else return ())"
proof -
  have "keeps (polled W) (emitArtifactsAsMessages W events task)"
    by (rule emitArtifactsAsMessages_keeps[where B = no_delta])
       (simp_all add: polled_emit polled_others)
  then show ?thesis
    by (auto intro!: keeps_and_then keeps_return polled_emit)
qed

lemma poll_iteration_polling:
  "triple (polling W lastState) (poll_iteration W events tid intervalMs lastState)
     (polling_post W) (polled W)"
  unfolding poll_iteration_def
proof (rule triple_and_then[OF sleep_polling], rule triple_and_then[OF getTask_queried])
  fix u :: unit and got :: "thrown + BinduTask"
  show "triple (queried W lastState got)
     (case got of
        Inl error \<Rightarrow>
          and_then (emit W (runError events (message_of error ''Failed to get task status'') None))
            (\<lambda>_. return (Break, lastState))
      | Inr currentTask \<Rightarrow>
          let currentState = state (status currentTask) in
          and_then
            (if currentState \<noteq> lastState then
               and_then (emit W (stateDelta events currentState)) (\<lambda>_. return currentState)
             else return lastState)
            (\<lambda>lastState.
               if currentState \<in> set TERMINAL_STATES then
                 and_then
                   (if currentState = ''completed'' then
                      and_then (emitArtifactsAsMessages W events currentTask) (\<lambda>_.
                      emit W (runFinished events))
                    else if currentState = ''failed'' then
                      emit W (runError events ''Task failed'' None)
                    else if currentState = ''canceled'' then
                      emit W (runError events ''Task canceled'' (Some (- 32000)))
                    else return ())
                   (\<lambda>_. return (Break, lastState))
               else return (Next, lastState)))
     (polling_post W) (polled W)"
  proof (cases got)
    case (Inl error)
    have "triple (polled W)
        (emit W (runError events (message_of error ''Failed to get task status'') None))
        (\<lambda>_. polled W) (polled W)"
      using polled_emit[of "runError events (message_of error ''Failed to get task status'') None" W]
      by (simp add: keeps_def)
    then have "triple (queried W lastState (Inl error))
        (emit W (runError events (message_of error ''Failed to get task status'') None))
        (\<lambda>_. polled W) (polled W)"
      by (rule triple_weaken) (simp_all add: queried_failed_polled)
    then show ?thesis
      unfolding Inl sum.case
      by (rule triple_and_then) (rule triple_return, simp add: polling_post_def)
  next
    case (Inr task)
    let ?cur = "state (status task)"
    have rest: "triple (\<lambda>s. ls = ?cur \<and> compared W task s)
        (if ?cur \<in> set TERMINAL_STATES then
           and_then
             (if ?cur = ''completed'' then
                and_then (emitArtifactsAsMessages W events task) (\<lambda>_.
                emit W (runFinished events))
              else if ?cur = ''failed'' then emit W (runError events ''Task failed'' None)
              else if ?cur = ''canceled'' then
                emit W (runError events ''Task canceled'' (Some (- 32000)))
              else return ())
             (\<lambda>_. return (Break, ls))
         else return (Next, ls))
        (polling_post W) (polled W)" for ls
    proof (cases "?cur \<in> set TERMINAL_STATES")
      case True
      have "triple (\<lambda>s. ls = ?cur \<and> compared W task s)
          (if ?cur = ''completed'' then
             and_then (emitArtifactsAsMessages W events task) (\<lambda>_. emit W (runFinished events))
           else if ?cur = ''failed'' then emit W (runError events ''Task failed'' None)
           else if ?cur = ''canceled'' then
             emit W (runError events ''Task canceled'' (Some (- 32000)))
           else return ())
          (\<lambda>_. polled W) (polled W)"
        by (rule triple_weaken[OF handle_terminal_polled[unfolded keeps_def]])
           (auto intro: compared_polled)
      then show ?thesis
        unfolding if_P[OF True]
        by (rule triple_and_then) (rule triple_return, simp add: polling_post_def)
    next
      case False
      then show ?thesis
        by (auto intro!: triple_return simp: polling_post_def compared_polling)
    qed
    show ?thesis
      unfolding Inr sum.case Let_def
      by (rule triple_and_then[OF compare_step rest])
  qed
qed

lemma poll_loop_polled:
  "polling W lastState s \<Longrightarrow>
   poll_loop fuel W events tid intervalMs maxAttempts lastState pollCount s = Some (r, s') \<Longrightarrow>
   polled W s'"
proof (induction fuel arbitrary: lastState pollCount s)
  case 0
  then show ?case by simp
next
  case (Suc fuel)
  show ?case
  proof (cases "number_lt pollCount maxAttempts")
    case False
    with Suc.prems polling_polled show ?thesis by auto
  next
    case True
    obtain r1 s1 where run: "poll_iteration W events tid intervalMs lastState s = (r1, s1)"
      by (cases "poll_iteration W events tid intervalMs lastState s")
    note it = poll_iteration_polling[of W lastState events tid intervalMs]
    show ?thesis
    proof (cases r1)
      case (Inl e)
      with tripleD_thrown[OF it Suc.prems(1)] run Suc.prems(2) True show ?thesis by auto
    next
      case (Inr cl)
      obtain c l where cl: "cl = (c, l)" by (cases cl)
      from tripleD_ok[OF it Suc.prems(1)] run Inr cl have post: "polling_post W (c, l) s1"
        by simp
      show ?thesis
      proof (cases c)
        case Break
        with post Suc.prems(2) True run Inr cl show ?thesis
          by (auto simp: polling_post_def)
      next
        case Next
        with post have p1: "polling W l s1" by (simp add: polling_post_def)
        from Suc.prems(2) True run Inr cl Next
        have "poll_loop fuel W events tid intervalMs maxAttempts l (increment pollCount) s1 = Some (r, s')"
          by simp
        from Suc.IH[OF p1 this] show ?thesis .
      qed
    qed
  qed
qed

lemma try_block_polled:
  assumes start: "fresh s"
    and run: "try_block fuel W msgs events thread tid mid intervalMs maxAttempts s = Some (r, s')"
  shows "polled W s'"
proof (cases "length (filter (\<lambda>m. role m = user) msgs) = 0")
  case True
  with run have "emit W (runError events ''No user messages to send'' None) s = (r, s')"
    by (simp add: try_block_def)
  from keepsD[OF polled_emit fresh_polled[OF start] this] show ?thesis by simp
next
  case False
  let ?start = "and_then
     (sendMessage W \<lparr>message_parts = map content (filter (\<lambda>m. role m = user) msgs),
        message_messageId = mid, message_contextId = thread, message_taskId = tid\<rparr>)
     (\<lambda>_. emit W (runStarted events))"
  have "keeps fresh ?start"
    by (intro keeps_and_then fresh_sendMessage fresh_emit) simp
  obtain r1 s1 where st: "?start s = (r1, s1)" by (cases "?start s")
  from keepsD[OF \<open>keeps fresh ?start\<close> start st] have f1: "fresh s1" .
  show ?thesis
  proof (cases r1)
    case (Inl e)
    with run False st fresh_polled[OF f1] show ?thesis by (auto simp: try_block_def)
  next
    case (Inr u)
    show ?thesis
    proof (cases "poll_loop fuel W events tid intervalMs maxAttempts ''submitted'' 0 s1")
      case None
      with run False st Inr show ?thesis by (simp add: try_block_def)
    next
      case (Some res)
      obtain r2 s2 where res: "res = (r2, s2)" by (cases res)
      from poll_loop_polled[OF fresh_polling[OF f1] Some[unfolded res]] have p2: "polled W s2" .
      show ?thesis
      proof (cases r2)
        case (Inl e)
        with run False st Inr Some res p2 show ?thesis by (auto simp: try_block_def)
      next
        case (Inr lp)
        obtain l p where lp: "lp = (l, p)" by (cases lp)
        let ?fin = "if number_ge p maxAttempts \<and> l \<notin> set TERMINAL_STATES
                    then emit W (runError events ''Polling timeout'' None) else return ()"
        have "keeps (polled W) ?fin" by (auto intro!: polled_emit keeps_return)
        moreover from run False st \<open>r1 = Inr u\<close> Some res Inr lp have "?fin s2 = (r, s')"
          by (simp add: try_block_def)
        ultimately show ?thesis using p2 keepsD by blast
      qed
    qed
  qed
qed

lemma background_polled:
  assumes start: "fresh s"
    and run: "background fuel W msgs events thread tid mid intervalMs maxAttempts s = Some s'"
  shows "polled W s'"
proof (cases "try_block fuel W msgs events thread tid mid intervalMs maxAttempts s")
  case None
  with run show ?thesis by (simp add: background_def)
next
  case (Some res)
  obtain r s1 where res: "res = (r, s1)" by (cases res)
  from try_block_polled[OF start Some[unfolded res]] have p1: "polled W s1" .
  let ?s2 = "case r of
      Inl error \<Rightarrow> snd (emit W (runError events (message_of error ''Unknown error'') None) s1)
    | Inr _ \<Rightarrow> s1"
  have p2: "polled W ?s2"
  proof (cases r)
    case (Inl error)
    have "keeps (polled W) (emit W (runError events (message_of error ''Unknown error'') None))"
      by (rule polled_emit) simp
    from keepsD[OF this p1 surjective_pairing] Inl show ?thesis by simp
  next
    case (Inr u)
    with p1 show ?thesis by simp
  qed
  from run Some res have "s' = snd (sse_close ?s2)" by (simp add: background_def)
  with keepsD[OF polled_others(2) p2 surjective_pairing] show ?thesis by simp
qed

lemma steady_run:
  "handleAGUIRun 3 default_config steady_world (JsonObject hi_request) = StreamResponse (Some steady_final)"
  by code_simp

lemma steady_observed: "observed steady_world 3 = [''working'', ''working'', ''completed'']"
  by code_simp

text \<open>Single passes through the loop body, on a sink that accepts every write.\<close>

lemma iteration_changed_nonterminal:
  assumes "accepting W" and "stream s = Writable"
    and "getTask_result W (length (getTask_calls s)) = Inr task"
    and "state (status task) \<notin> set TERMINAL_STATES"
    and "state (status task) \<noteq> lastState"
  shows "poll_iteration W events tid intervalMs lastState s =
     (Inr (Next, state (status task)),
      s\<lparr>sleeps := sleeps s @ [intervalMs],
        getTask_calls := getTask_calls s @ [tid],
        clock_calls := Suc (clock_calls s),
        chunks := chunks s @ [stateDelta events (state (status task)) (clock W (clock_calls s))],
        writes := Suc (writes s)\<rparr>)"
  using assms
  by (simp add: poll_iteration_def and_then_def sleep_def return_def attempt_def getTask_def
      emit_accepted accepting_def Let_def)

lemma iteration_completed_one_text:
  assumes "accepting W" and "stream s = Writable"
    and "getTask_result W (length (getTask_calls s)) = Inr task"
    and "state (status task) = ''completed''" and "lastState \<noteq> ''completed''"
    and "artifacts task = Some [a]" and "parts a = [p]" and "kind p = Text"
    and "text p = Some t" and "t \<noteq> []"
  shows "poll_iteration W events tid intervalMs lastState s =
     (Inr (Break, ''completed''),
      s\<lparr>sleeps := sleeps s @ [intervalMs],
        getTask_calls := getTask_calls s @ [tid],
        uuid_calls := Suc (uuid_calls s),
        clock_calls := clock_calls s + 5,
        chunks := chunks s @
          [stateDelta events ''completed'' (clock W (clock_calls s)),
           textMessageStart events (uuids W (uuid_calls s)) ''assistant''
             (clock W (clock_calls s + 1)),
           textMessageContent events (uuids W (uuid_calls s)) t (clock W (clock_calls s + 2)),
           textMessageEnd events (uuids W (uuid_calls s)) (clock W (clock_calls s + 3)),
           runFinished events (clock W (clock_calls s + 4))],
        writes := writes s + 5\<rparr>)"
proof -
  from assms(1) have w: "\<And>k. write_result W k = None" by (simp add: accepting_def)
  have tm: "''completed'' \<in> set TERMINAL_STATES" by (simp add: TERMINAL_STATES_def)
  show ?thesis
    using assms(2-)
    by (simp add: poll_iteration_def and_then_def sleep_def return_def attempt_def getTask_def
        emit_accepted w Let_def tm emitArtifactsAsMessages_def call_def randomUUID_def
        numeral_eq_Suc)
qed

text \<open>Sleeps and status queries, counted.\<close>

lemma emit_sleeps:
  assumes "emit W build s = (r, s')"
  shows "sleeps s' = sleeps s \<and> getTask_calls s' = getTask_calls s"
  using assms
  by (auto simp: emit_def and_then_def call_def Date_now_def sse_emit_def writer_write_def
      split: if_splits option.splits)

lemma slept_keeps:
  "keeps (slept ms) (emit W build)"
  "keeps (slept ms) (call (randomUUID W))"
  "keeps (slept ms) (getTask W tid)"
  "keeps (slept ms) (sleep ms)"
  "keeps (slept ms) (sendMessage W params)"
  "keeps (slept ms) sse_close"
  unfolding keeps_def
  by (rule tripleI;
      auto simp: slept_def call_def randomUUID_def getTask_def sleep_def sendMessage_def
        sse_close_def writer_close_def dest!: emit_sleeps split: option.splits if_splits)+

lemma background_slept:
  assumes "slept intervalMs s"
    and "background fuel W msgs events thread tid mid intervalMs maxAttempts s = Some s'"
  shows "slept intervalMs s'"
  using slept_keeps(1,2,3,4,5,6) assms
  by (rule background_keeps)

lemma counts_keeps:
  "keeps (\<lambda>s. sleeps s = A \<and> getTask_calls s = B) (emit W build)"
  "keeps (\<lambda>s. sleeps s = A \<and> getTask_calls s = B) (call (randomUUID W))"
  "keeps (\<lambda>s. sleeps s = A \<and> getTask_calls s = B) (sendMessage W params)"
  "keeps (\<lambda>s. sleeps s = A \<and> getTask_calls s = B) sse_close"
  unfolding keeps_def
  by (rule tripleI;
      auto simp: call_def randomUUID_def sendMessage_def sse_close_def writer_close_def
        dest!: emit_sleeps split: option.splits if_splits)+

lemma poll_iteration_counts:
  "triple (\<lambda>s. sleeps s = A \<and> getTask_calls s = B)
     (poll_iteration W events tid ms lastState)
     (\<lambda>_ s. sleeps s = A @ [ms] \<and> getTask_calls s = B @ [tid])
     (\<lambda>s. sleeps s = A @ [ms] \<and> getTask_calls s = B @ [tid])"
proof -
  let ?Q = "\<lambda>s. sleeps s = A @ [ms] \<and> getTask_calls s = B @ [tid]"
  have ar: "keeps ?Q (emitArtifactsAsMessages W events task)" for task
    by (rule emitArtifactsAsMessages_keeps[where B = "\<lambda>_. True"])
       (simp_all add: counts_keeps)
  have sl: "triple (\<lambda>s. sleeps s = A \<and> getTask_calls s = B) (sleep ms)
      (\<lambda>_ s. sleeps s = A @ [ms] \<and> getTask_calls s = B) ?Q"
    by (rule tripleI) (auto simp: sleep_def)
  have gt: "triple (\<lambda>s. sleeps s = A @ [ms] \<and> getTask_calls s = B) (attempt (getTask W tid))
      (\<lambda>_. ?Q) ?Q"
    by (rule tripleI) (auto simp: attempt_def getTask_def)
  have rest: "keeps ?Q
     (case got of
        Inl error \<Rightarrow>
          and_then (emit W (runError events (message_of error ''Failed to get task status'') None))
            (\<lambda>_. return (Break, lastState))
      | Inr currentTask \<Rightarrow>
          and_then
            (if state (status currentTask) \<noteq> lastState then
               and_then (emit W (stateDelta events (state (status currentTask))))
                 (\<lambda>_. return (state (status currentTask)))
             else return lastState)
            (\<lambda>lastState.
               if state (status currentTask) \<in> set TERMINAL_STATES then
                 and_then
                   (if state (status currentTask) = ''completed'' then
                      and_then (emitArtifactsAsMessages W events currentTask) (\<lambda>_.
                      emit W (runFinished events))
                    else if state (status currentTask) = ''failed'' then
                      emit W (runError events ''Task failed'' None)
                    else if state (status currentTask) = ''canceled'' then
                      emit W (runError events ''Task canceled'' (Some (- 32000)))
                    else return ())
                   (\<lambda>_. return (Break, lastState))
               else return (Next, lastState)))" for got
    by (auto split: sum.splits intro!: keeps_and_then keeps_return counts_keeps ar)
  show ?thesis
    unfolding poll_iteration_def Let_def
    by (rule triple_and_then[OF sl], rule triple_and_then[OF gt])
       (rule rest[unfolded keeps_def])
qed

lemma counting_counted: "counting bound pollCount s \<Longrightarrow> counted bound s"
  by (simp add: counting_def counted_def)

lemma counting_step:
  assumes c: "counting bound pollCount s" and lt: "number_lt pollCount bound"
    and s1: "sleeps s1 = sleeps s @ [ms]" "getTask_calls s1 = getTask_calls s @ [tid]"
  shows "counting bound (increment pollCount) s1"
proof -
  let ?n = "length (getTask_calls s)"
  from c have len: "length (sleeps s) = ?n"
    and pc: "int pollCount < 2 ^ 53 \<longrightarrow> pollCount = ?n"
    and le: "pollCount \<le> ?n" "int pollCount \<le> 2 ^ 53"
    by (simp_all add: counting_def)
  have inc: "int (increment pollCount) < 2 ^ 53 \<longrightarrow> increment pollCount = Suc ?n"
    "increment pollCount \<le> Suc ?n" "int (increment pollCount) \<le> 2 ^ 53"
    using pc le by (auto simp: increment_def)
  have "attempts_within (Suc ?n) bound"
  proof (cases bound)
    case (Num m)
    show ?thesis
    proof (cases "m \<le> 2 ^ 53")
      case True
      from lt Num have lt': "real pollCount < m" by simp
      with True have "real pollCount < 2 ^ 53" by linarith
      then have "int pollCount < 2 ^ 53"
        by (metis of_int_less_iff of_int_numeral of_int_of_nat_eq of_int_power)
      with pc have "pollCount = ?n" by simp
      with lt' have "real ?n < m" by simp
      also have "m \<le> real_of_int \<lceil>m\<rceil>" by (rule le_of_int_ceiling)
      finally have "int ?n < \<lceil>m\<rceil>" by linarith
      then have "int (Suc ?n) \<le> max 0 \<lceil>m\<rceil>" by simp
      then show ?thesis using Num by simp
    next
      case False
      with Num show ?thesis by simp
    qed
  qed (use lt in simp_all)
  with len inc s1 show ?thesis by (simp add: counting_def)
qed

lemma poll_loop_counted:
  "counting maxAttempts pollCount s \<Longrightarrow>
   poll_loop fuel W events tid intervalMs maxAttempts lastState pollCount s = Some (r, s') \<Longrightarrow>
   counted maxAttempts s'"
proof (induction fuel arbitrary: lastState pollCount s)
  case 0
  then show ?case by simp
next
  case (Suc fuel)
  show ?case
  proof (cases "number_lt pollCount maxAttempts")
    case False
    with Suc.prems counting_counted show ?thesis by auto
  next
    case True
    obtain r1 s1 where run: "poll_iteration W events tid intervalMs lastState s = (r1, s1)"
      by (cases "poll_iteration W events tid intervalMs lastState s")
    note it = poll_iteration_counts[of "sleeps s" "getTask_calls s" W events tid intervalMs lastState]
    have s1: "sleeps s1 = sleeps s @ [intervalMs] \<and> getTask_calls s1 = getTask_calls s @ [tid]"
    proof (cases r1)
      case (Inl e)
      with tripleD_thrown[OF it _ run[unfolded Inl]] show ?thesis by simp
    next
      case (Inr x)
      with tripleD_ok[OF it _ run[unfolded Inr]] show ?thesis by simp
    qed
    then have c1: "counting maxAttempts (increment pollCount) s1"
      using counting_step[OF Suc.prems(1) True] by simp
    show ?thesis
    proof (cases r1)
      case (Inl e)
      with Suc.prems(2) True run counting_counted[OF c1] show ?thesis by auto
    next
      case (Inr cl)
      obtain c l where cl: "cl = (c, l)" by (cases cl)
      show ?thesis
      proof (cases c)
        case Break
        with Suc.prems(2) True run Inr cl counting_counted[OF c1] show ?thesis by auto
      next
        case Next
        with Suc.prems(2) True run Inr cl
        have "poll_loop fuel W events tid intervalMs maxAttempts l (increment pollCount) s1 =
            Some (r, s')"
          by simp
        from Suc.IH[OF c1 this] show ?thesis .
      qed
    qed
  qed
qed


lemma counted_keeps:
  "keeps (counted bound) (emit W build)"
  "keeps (counted bound) sse_close"
  unfolding keeps_def
  by (rule tripleI;
      auto simp: counted_def sse_close_def writer_close_def
        dest!: emit_sleeps split: if_splits)+

lemma unpolled_keeps:
  "keeps unpolled (emit W build)"
  "keeps unpolled (sendMessage W params)"
  unfolding keeps_def
  by (rule tripleI;
      auto simp: unpolled_def sendMessage_def dest!: emit_sleeps
        split: option.splits)+

lemma attempts_within_0: "attempts_within 0 bound"
  by (cases bound) simp_all

lemma unpolled_counting: "unpolled s \<Longrightarrow> counting bound 0 s"
  by (simp add: unpolled_def counting_def attempts_within_0)

lemma unpolled_counted: "unpolled s \<Longrightarrow> counted bound s"
  by (simp add: unpolled_def counted_def attempts_within_0)

lemma try_block_counted:
  assumes start: "unpolled s"
    and run: "try_block fuel W msgs events thread tid mid intervalMs maxAttempts s = Some (r, s')"
  shows "counted maxAttempts s'"
proof (cases "length (filter (\<lambda>m. role m = user) msgs) = 0")
  case True
  with run have "emit W (runError events ''No user messages to send'' None) s = (r, s')"
    by (simp add: try_block_def)
  from keepsD[OF counted_keeps(1) unpolled_counted[OF start] this] show ?thesis .
next
  case False
  let ?start = "and_then
     (sendMessage W \<lparr>message_parts = map content (filter (\<lambda>m. role m = user) msgs),
        message_messageId = mid, message_contextId = thread, message_taskId = tid\<rparr>)
     (\<lambda>_. emit W (runStarted events))"
  have "keeps unpolled ?start"
    by (intro keeps_and_then unpolled_keeps)
  obtain r1 s1 where st: "?start s = (r1, s1)" by (cases "?start s")
  from keepsD[OF \<open>keeps unpolled ?start\<close> start st] have u1: "unpolled s1" .
  show ?thesis
  proof (cases r1)
    case (Inl e)
    with run False st unpolled_counted[OF u1] show ?thesis by (auto simp: try_block_def)
  next
    case (Inr u)
    show ?thesis
    proof (cases "poll_loop fuel W events tid intervalMs maxAttempts ''submitted'' 0 s1")
      case None
      with run False st Inr show ?thesis by (simp add: try_block_def)
    next
      case (Some res)
      obtain r2 s2 where res: "res = (r2, s2)" by (cases res)
      from poll_loop_counted[OF unpolled_counting[OF u1] Some[unfolded res]]
      have c2: "counted maxAttempts s2" .
      show ?thesis
      proof (cases r2)
        case (Inl e)
        with run False st Inr Some res c2 show ?thesis by (auto simp: try_block_def)
      next
        case (Inr lp)
        obtain l p where lp: "lp = (l, p)" by (cases lp)
        let ?fin = "if number_ge p maxAttempts \<and> l \<notin> set TERMINAL_STATES
                    then emit W (runError events ''Polling timeout'' None) else return ()"
        have "keeps (counted maxAttempts) ?fin" by (auto intro!: counted_keeps keeps_return)
        moreover from run False st \<open>r1 = Inr u\<close> Some res Inr lp have "?fin s2 = (r, s')"
          by (simp add: try_block_def)
        ultimately show ?thesis using c2 keepsD by blast
      qed
    qed
  qed
qed

lemma background_counted:
  assumes start: "unpolled s"
    and run: "background fuel W msgs events thread tid mid intervalMs maxAttempts s = Some s'"
  shows "counted maxAttempts s'"
proof (cases "try_block fuel W msgs events thread tid mid intervalMs maxAttempts s")
  case None
  with run show ?thesis by (simp add: background_def)
next
  case (Some res)
  obtain r s1 where res: "res = (r, s1)" by (cases res)
  from try_block_counted[OF start Some[unfolded res]] have c1: "counted maxAttempts s1" .
  let ?s2 = "case r of
      Inl error \<Rightarrow> snd (emit W (runError events (message_of error ''Unknown error'') None) s1)
    | Inr _ \<Rightarrow> s1"
  have c2: "counted maxAttempts ?s2"
  proof (cases r)
    case (Inl error)
    from keepsD[OF counted_keeps(1) c1 surjective_pairing] Inl show ?thesis by simp
  next
    case (Inr u)
    with c1 show ?thesis by simp
  qed
  from run Some res have "s' = snd (sse_close ?s2)" by (simp add: background_def)
  with keepsD[OF counted_keeps(2) c2 surjective_pairing] show ?thesis by simp
qed

lemma taskId_of_unpolled:
  assumes "taskId_of W body initial = (tid, s0)"
  shows "sleeps s0 = [] \<and> getTask_calls s0 = [] \<and> clock_calls s0 = 0 \<and> writes s0 = 0"
  using assms by (auto simp: taskId_of_def randomUUID_def initial_def split: if_splits)

text \<open>A run that only the bound stops.\<close>

lemma counting_exhausted:
  assumes c: "counting bound pollCount s" and ex: "\<not> number_lt pollCount bound"
  shows "attempts_are (length (getTask_calls s)) bound"
proof (cases bound)
  case (Num m)
  let ?n = "length (getTask_calls s)"
  from ex Num have m: "m \<le> real pollCount" by simp
  from c have le: "pollCount \<le> ?n" "int pollCount \<le> 2 ^ 53"
    and w: "attempts_within ?n bound"
    by (simp_all add: counting_def)
  from le(2) have "real pollCount \<le> 2 ^ 53"
    by (metis of_int_le_iff of_int_numeral of_int_of_nat_eq of_int_power)
  with m have small: "m \<le> 2 ^ 53" by linarith
  from m le(1) have "m \<le> real ?n" by linarith
  then have "\<lceil>m\<rceil> \<le> int ?n" by (simp add: ceiling_le_iff)
  moreover from w Num small have "int ?n \<le> max 0 \<lceil>m\<rceil>" by simp
  ultimately have "int ?n = max 0 \<lceil>m\<rceil>" by linarith
  with small Num show ?thesis by simp
qed (use assms in \<open>simp_all add: counting_def\<close>)

lemma iteration_nonterminal:
  assumes acc: "accepting W" and wr: "stream s = Writable"
    and nt: "nonterminal_poll W (length (getTask_calls s))"
  shows "\<exists>cur s1. poll_iteration W events tid intervalMs lastState s = (Inr (Next, cur), s1) \<and>
      stream s1 = Writable \<and> sleeps s1 = sleeps s @ [intervalMs] \<and>
      getTask_calls s1 = getTask_calls s @ [tid]"
proof -
  from nt obtain task where got: "getTask_result W (length (getTask_calls s)) = Inr task"
    and st: "state (status task) \<notin> set TERMINAL_STATES"
    by (auto simp: nonterminal_poll_def split: sum.splits)
  show ?thesis
  proof (cases "state (status task) = lastState")
    case True
    with got st wr show ?thesis
      by (simp add: poll_iteration_def and_then_def sleep_def return_def attempt_def getTask_def
          Let_def)
  next
    case False
    from iteration_changed_nonterminal[OF acc wr got st False, of events tid intervalMs] wr
    show ?thesis by simp
  qed
qed

lemma poll_loop_exhausts:
  assumes acc: "accepting W" and nt: "\<forall>k. nonterminal_poll W k"
  shows "stream s = Writable \<Longrightarrow> counting maxAttempts pollCount s \<Longrightarrow>
    poll_loop fuel W events tid intervalMs maxAttempts lastState pollCount s = Some (r, s') \<Longrightarrow>
    (\<exists>lp. r = Inr lp) \<and> attempts_are (length (getTask_calls s')) maxAttempts"
proof (induction fuel arbitrary: lastState pollCount s)
  case 0
  then show ?case by simp
next
  case (Suc fuel)
  show ?case
  proof (cases "number_lt pollCount maxAttempts")
    case False
    with Suc.prems counting_exhausted[OF Suc.prems(2) False] show ?thesis by auto
  next
    case True
    from iteration_nonterminal[OF acc Suc.prems(1), of events tid intervalMs lastState] nt
    obtain cur s1 where
      it: "poll_iteration W events tid intervalMs lastState s = (Inr (Next, cur), s1)"
      and s1: "stream s1 = Writable" "sleeps s1 = sleeps s @ [intervalMs]"
        "getTask_calls s1 = getTask_calls s @ [tid]"
      by blast
    from counting_step[OF Suc.prems(2) True s1(2,3)]
    have c1: "counting maxAttempts (increment pollCount) s1" .
    from Suc.prems(3) True it
    have "poll_loop fuel W events tid intervalMs maxAttempts cur (increment pollCount) s1 =
        Some (r, s')"
      by simp
    from Suc.IH[OF s1(1) c1 this] show ?thesis .
  qed
qed

lemma background_exhausts:
  assumes un: "unstopped W msgs"
    and start: "stream s = Writable" "unpolled s"
    and run: "background fuel W msgs events thread tid mid intervalMs maxAttempts s = Some s'"
  shows "attempts_are (length (getTask_calls s')) maxAttempts"
proof -
  from un have acc: "accepting W" and nt: "\<forall>k. nonterminal_poll W k"
    and sent: "sendMessage_result W = None"
    and some: "length (filter (\<lambda>m. role m = user) msgs) \<noteq> 0"
    by (auto simp: unstopped_def filter_empty_conv)
  from acc have w: "\<And>k. write_result W k = None" by (simp add: accepting_def)
  define params where "params = \<lparr>message_parts = map content (filter (\<lambda>m. role m = user) msgs),
      message_messageId = mid, message_contextId = thread, message_taskId = tid\<rparr>"
  define s1 where "s1 = s\<lparr>sendMessage_calls := sendMessage_calls s @ [params],
      clock_calls := Suc (clock_calls s),
      chunks := chunks s @ [runStarted events (clock W (clock_calls s))],
      writes := Suc (writes s)\<rparr>"
  have started: "and_then (sendMessage W params) (\<lambda>_. emit W (runStarted events)) s = (Inr (), s1)"
    using start(1) by (simp add: and_then_def sendMessage_def sent emit_accepted w s1_def)
  have s1: "stream s1 = Writable" "unpolled s1"
    using start by (simp_all add: s1_def unpolled_def)
  obtain res where tb: "try_block fuel W msgs events thread tid mid intervalMs maxAttempts s = Some res"
    using run by (auto simp: background_def split: option.splits)
  obtain r s2 where res: "res = (r, s2)" by (cases res)
  have n2: "attempts_are (length (getTask_calls s2)) maxAttempts"
  proof (cases "poll_loop fuel W events tid intervalMs maxAttempts ''submitted'' 0 s1")
    case None
    with tb some started show ?thesis by (simp add: try_block_def params_def)
  next
    case (Some lres)
    obtain r3 s3 where lres: "lres = (r3, s3)" by (cases lres)
    from poll_loop_exhausts[OF acc nt s1(1) unpolled_counting[OF s1(2)] Some[unfolded lres]]
    obtain lp where r3: "r3 = Inr lp"
      and n3: "attempts_are (length (getTask_calls s3)) maxAttempts"
      by blast
    obtain l p where lp: "lp = (l, p)" by (cases lp)
    let ?fin = "if number_ge p maxAttempts \<and> l \<notin> set TERMINAL_STATES
                then emit W (runError events ''Polling timeout'' None) else return ()"
    from tb some started Some lres r3 lp res have fin: "?fin s3 = (r, s2)"
      by (simp add: try_block_def params_def)
    have "getTask_calls s2 = getTask_calls s3"
      using fin emit_sleeps[of W "runError events ''Polling timeout'' None" s3 r s2]
      by (auto simp: return_def split: if_splits)
    with n3 show ?thesis by simp
  qed
  let ?s4 = "case r of
      Inl error \<Rightarrow> snd (emit W (runError events (message_of error ''Unknown error'') None) s2)
    | Inr _ \<Rightarrow> s2"
  have "getTask_calls ?s4 = getTask_calls s2"
    using emit_sleeps[OF surjective_pairing] by (cases r) auto
  moreover from run tb res have "s' = snd (sse_close ?s4)" by (simp add: background_def)
  ultimately have "getTask_calls s' = getTask_calls s2" by (simp add: sse_close_calls)
  with n2 show ?thesis by simp
qed

text \<open>When the bound on the attempts is not a number, and when it is a number.\<close>

lemma to_number_not_NaN: "to_number x \<noteq> NaN"
  by (simp add: to_number_def Let_def)

lemma Math_ceil_NaN: "Math_ceil n = NaN \<longleftrightarrow> n = NaN"
  by (cases n) simp_all

lemma number_div_NaN:
  "number_div a b = NaN \<longleftrightarrow>
     is_NaN a \<or> is_NaN b \<or> is_infinite a \<and> is_infinite b \<or> is_zero a \<and> is_zero b"
  by (cases a; cases b)
     (simp_all add: number_div_def Let_def signed_zero_def signed_infinity_def to_number_not_NaN)

lemma maxPollAttempts_of_NaN:
  "maxPollAttempts_of cfg body = NaN \<longleftrightarrow>
     (case Option.bind (config body) timeout_ms of
        Some t \<Rightarrow>
          if truthy_number (Some t)
          then is_NaN (pollIntervalMs_of cfg body) \<or>
               is_infinite t \<and> is_infinite (pollIntervalMs_of cfg body)
          else maxPollAttempts cfg = NaN
      | None \<Rightarrow> maxPollAttempts cfg = NaN)"
proof (cases "Option.bind (config body) timeout_ms")
  case None
  then show ?thesis by (simp add: maxPollAttempts_of_def)
next
  case (Some t)
  then show ?thesis
    by (cases t) (auto simp: maxPollAttempts_of_def Math_ceil_NaN number_div_NaN)
qed

lemma null_body_throws: "handleAGUIRun fuel cfg W JsonNull = Throws (Error ''TypeError'')"
  by (simp add: handleAGUIRun_def)

lemma terminal_event_unless_NaN:
  assumes run: "handleAGUIRun fuel cfg W (JsonObject body) = StreamResponse (Some s)"
    and nn: "maxPollAttempts_of cfg body \<noteq> NaN"
  shows "(stream s = Closed \<or> stream s = Errored) \<and>
      (accepting W \<longrightarrow> stream s = Closed) \<and>
      (stream s = Closed \<longrightarrow>
         chunks s \<noteq> [] \<and> terminal_event (last (chunks s)) \<and>
         length (filter terminal_event (chunks s)) = 1)"
proof (intro conjI impI)
  from handleAGUIRun_stream[OF run] obtain thread msgs tid mid s0 where
    ts: "taskId_of W body initial = (tid, s0)"
    and bg: "background fuel W msgs \<lparr>threadId = thread, runId = tid\<rparr> thread tid mid
           (pollIntervalMs_of cfg body) (maxPollAttempts_of cfg body)
           (s0\<lparr>uuid_calls := Suc (uuid_calls s0)\<rparr>) = Some s"
    by metis
  note s0 = taskId_of_initial[OF ts]
  have "running (s0\<lparr>uuid_calls := Suc (uuid_calls s0)\<rparr>)"
    by (simp add: running_def s0)
  from background_finished[OF nn this bg]
  have fin: "stream s = Errored \<or> (stream s = Closed \<and> one_terminal_last (chunks s))" .
  then show "stream s = Closed \<or> stream s = Errored" by auto
  have "stream (s0\<lparr>uuid_calls := Suc (uuid_calls s0)\<rparr>) \<noteq> Errored"
    by (simp add: s0)
  from background_intact[OF _ this bg] fin show "stream s = Closed" if "accepting W"
    using that by auto
  from fin have otl: "one_terminal_last (chunks s)" if "stream s = Closed"
    using that by auto
  from otl show "chunks s \<noteq> []" "terminal_event (last (chunks s))" if "stream s = Closed"
    using that by (simp_all add: one_terminal_last_def)
  from one_terminal_last_count[OF otl]
  show "length (filter terminal_event (chunks s)) = 1" if "stream s = Closed"
    using that .
qed

section \<open>The claims\<close>

text \<open>
  Claim C1 says that a run whose background task ends and whose writes all succeed
  leaves exactly one terminal event, a \<open>RUN_FINISHED\<close> or a \<open>RUN_ERROR\<close>, as the last event
  of the stream. The code breaks this for the request with thread id "t1", the one user
  message "hi" and \<open>"config": {"polling_interval_ms": 1e400, "timeout_ms": 1e400}\<close>. Both
  numbers are read as \<open>Infinity\<close>, the bound \<open>Math.ceil(Infinity / Infinity)\<close> is \<open>NaN\<close>, and
  neither \<open>pollCount < maxPollAttempts\<close> nor \<open>pollCount >= maxPollAttempts\<close> holds of it: the
  loop is not entered, no timeout is reported, and the stream is closed holding
  \<open>RUN_STARTED\<close> alone, every write accepted.
\<close>

theorem infinite_timeout_and_interval_leave_no_terminal_event:
  "Option.bind (config overflow_request) polling_interval_ms = Some PosInfinity \<and>
   Option.bind (config overflow_request) timeout_ms = Some PosInfinity \<and>
   maxPollAttempts_of default_config overflow_request = NaN \<and>
   handleAGUIRun 1 default_config hello_world (JsonObject overflow_request) =
     StreamResponse (Some started_only) \<and>
   stream started_only = Closed \<and>
   writes started_only = length (chunks started_only) \<and>
   map type (chunks started_only) = [RUN_STARTED] \<and>
   filter terminal_event (chunks started_only) = []"
  using overflow_run
  by (simp add: overflow_request_def hi_request_def started_only_def terminal_event_def
      maxPollAttempts_of_def pollIntervalMs_of_def number_div_def)

text \<open>
  Claim C2, as stated, fails for a request whose messages contain no entry of role
  \<open>user\<close>: the handler answers with the stream, and the violation is the one event on it.
\<close>

theorem no_user_message_is_a_stream_event:
  "truthy (AGUIRunRequest.thread_id assistant_only_request) \<and>
   messages assistant_only_request = Some [\<lparr>role = assistant, content = ''hello''\<rparr>] \<and>
   handleAGUIRun 0 default_config hello_world (JsonObject assistant_only_request) =
     StreamResponse (Some no_user_final) \<and>
   map type (chunks no_user_final) = [RUN_ERROR]"
  using no_user_run by (simp add: assistant_only_request_def no_user_final_def)

text \<open>
  Claim C2, amended. A body that is not JSON, a JSON body other than \<open>null\<close> that lacks a
  non-empty \<open>thread_id\<close>, and a request whose \<open>messages\<close> are missing or empty are answered
  with a JSON error of status 400 and no stream. Every other request is answered with
  the stream. When none of its messages has role \<open>user\<close>, its run ends without a call of
  \<open>sendMessage\<close>, and the violation is reported on the stream: when the sink accepts the
  write, the closed stream holds the one event \<open>RUN_ERROR\<close> "No user messages to send",
  stamped with the request's thread id and the run's task id.
\<close>

theorem validation_rejects_before_the_stream:
  "handleAGUIRun fuel cfg W NotJson = JsonResponse ''Invalid JSON body'' 400 \<and>
   handleAGUIRun fuel cfg W JsonOther = JsonResponse ''thread_id is required'' 400 \<and>
   (\<not> truthy (AGUIRunRequest.thread_id body) \<longrightarrow>
      handleAGUIRun fuel cfg W (JsonObject body) = JsonResponse ''thread_id is required'' 400) \<and>
   (truthy (AGUIRunRequest.thread_id body) \<and> (messages body = None \<or> messages body = Some []) \<longrightarrow>
      handleAGUIRun fuel cfg W (JsonObject body) =
        JsonResponse ''messages array is required and cannot be empty'' 400) \<and>
   (truthy (AGUIRunRequest.thread_id body) \<and> messages body = Some msgs \<and> msgs \<noteq> [] \<longrightarrow>
      (\<exists>r. handleAGUIRun fuel cfg W (JsonObject body) = StreamResponse r)) \<and>
   (truthy (AGUIRunRequest.thread_id body) \<and> messages body = Some msgs \<and> msgs \<noteq> [] \<and>
    (\<forall>m \<in> set msgs. role m \<noteq> user) \<longrightarrow>
      (\<exists>s. handleAGUIRun fuel cfg W (JsonObject body) = StreamResponse (Some s) \<and>
           sendMessage_calls s = [] \<and>
           (write_result W 0 = None \<longrightarrow>
              stream s = Closed \<and>
              chunks s =
                [runError \<lparr>threadId = the (AGUIRunRequest.thread_id body),
                           runId = fst (taskId_of W body initial)\<rparr>
                   ''No user messages to send'' None (clock W 0)])))"
proof -
  have nouser: "\<exists>s. handleAGUIRun fuel cfg W (JsonObject body) = StreamResponse (Some s) \<and>
           sendMessage_calls s = [] \<and>
           (write_result W 0 = None \<longrightarrow>
              stream s = Closed \<and>
              chunks s =
                [runError \<lparr>threadId = the (AGUIRunRequest.thread_id body),
                           runId = fst (taskId_of W body initial)\<rparr>
                   ''No user messages to send'' None (clock W 0)])"
    if a: "truthy (AGUIRunRequest.thread_id body)" "messages body = Some msgs" "msgs \<noteq> []"
      "\<forall>m \<in> set msgs. role m \<noteq> user"
  proof -
    from handleAGUIRun_validated[OF a(1,2,3)]
    obtain r where r: "handleAGUIRun fuel cfg W (JsonObject body) = StreamResponse r" by blast
    from handleAGUIRun_stream[OF r] a(2) obtain thread tid mid s0 where
      th: "AGUIRunRequest.thread_id body = Some thread"
      and ts: "taskId_of W body initial = (tid, s0)"
      and bg: "r = background fuel W msgs \<lparr>threadId = thread, runId = tid\<rparr> thread tid mid
             (pollIntervalMs_of cfg body) (maxPollAttempts_of cfg body)
             (s0\<lparr>uuid_calls := Suc (uuid_calls s0)\<rparr>)"
      by auto
    note s0 = taskId_of_initial[OF ts] taskId_of_unpolled[OF ts]
    let ?s = "s0\<lparr>uuid_calls := Suc (uuid_calls s0)\<rparr>"
    have "chunks ?s = []" "sendMessage_calls ?s = []" "stream ?s = Writable"
      using s0 by simp_all
    from background_no_user[OF a(4) this, of fuel W "\<lparr>threadId = thread, runId = tid\<rparr>"
        thread tid mid "pollIntervalMs_of cfg body" "maxPollAttempts_of cfg body"]
    obtain s' where s': "r = Some s'" "sendMessage_calls s' = []"
      "write_result W 0 = None \<longrightarrow>
         chunks s' = [runError \<lparr>threadId = thread, runId = tid\<rparr> ''No user messages to send'' None
           (clock W 0)] \<and> stream s' = Closed"
      using bg s0 by auto
    with r th ts show ?thesis by auto
  qed
  have rest: "handleAGUIRun fuel cfg W NotJson = JsonResponse ''Invalid JSON body'' 400 \<and>
   handleAGUIRun fuel cfg W JsonOther = JsonResponse ''thread_id is required'' 400 \<and>
   (\<not> truthy (AGUIRunRequest.thread_id body) \<longrightarrow>
      handleAGUIRun fuel cfg W (JsonObject body) = JsonResponse ''thread_id is required'' 400) \<and>
   (truthy (AGUIRunRequest.thread_id body) \<and> (messages body = None \<or> messages body = Some []) \<longrightarrow>
      handleAGUIRun fuel cfg W (JsonObject body) =
        JsonResponse ''messages array is required and cannot be empty'' 400) \<and>
   (truthy (AGUIRunRequest.thread_id body) \<and> messages body = Some msgs \<and> msgs \<noteq> [] \<longrightarrow>
      (\<exists>r. handleAGUIRun fuel cfg W (JsonObject body) = StreamResponse r))"
    by (auto simp: handleAGUIRun_def Let_def case_prod_beta)
  from rest nouser show ?thesis by blast
qed

theorem validation_rejects_before_the_stream_witness:
  "\<not> truthy (AGUIRunRequest.thread_id no_thread_request) \<and>
   handleAGUIRun 2 default_config hello_world (JsonObject no_thread_request) =
     JsonResponse ''thread_id is required'' 400 \<and>
   truthy (AGUIRunRequest.thread_id no_messages_request) \<and>
   messages no_messages_request = Some [] \<and>
   handleAGUIRun 2 default_config hello_world (JsonObject no_messages_request) =
     JsonResponse ''messages array is required and cannot be empty'' 400 \<and>
   truthy (AGUIRunRequest.thread_id hi_request) \<and>
   messages hi_request = Some [\<lparr>role = user, content = ''hi''\<rparr>] \<and>
   handleAGUIRun 2 default_config hello_world (JsonObject hi_request) =
     StreamResponse (Some hello_final) \<and>
   truthy (AGUIRunRequest.thread_id assistant_only_request) \<and>
   messages assistant_only_request = Some [\<lparr>role = assistant, content = ''hello''\<rparr>] \<and>
   role \<lparr>role = assistant, content = ''hello''\<rparr> \<noteq> user \<and>
   write_result hello_world 0 = None \<and>
   handleAGUIRun 2 default_config hello_world (JsonObject assistant_only_request) =
     StreamResponse (Some no_user_final) \<and>
   sendMessage_calls no_user_final = [] \<and> stream no_user_final = Closed \<and>
   chunks no_user_final =
     [runError \<lparr>threadId = ''t1'', runId = ''run-1''\<rparr> ''No user messages to send'' None 1000]"
proof -
  have run: "handleAGUIRun 2 default_config hello_world (JsonObject assistant_only_request) =
     StreamResponse (Some no_user_final)"
    by code_simp
  have ev: "chunks no_user_final =
     [runError \<lparr>threadId = ''t1'', runId = ''run-1''\<rparr> ''No user messages to send'' None 1000]"
    by (simp add: no_user_final_def runError_def spread_def base_def)
  from validation_rejects_before_the_stream[of 2 default_config hello_world no_thread_request]
    validation_rejects_before_the_stream[of 2 default_config hello_world no_messages_request]
    validation_rejects_before_the_stream[of 2 default_config hello_world hi_request
      "[\<lparr>role = user, content = ''hi''\<rparr>]"]
    validation_rejects_before_the_stream[of 2 default_config hello_world assistant_only_request
      "[\<lparr>role = assistant, content = ''hello''\<rparr>]"]
    hello_run run ev
  show ?thesis
    by (simp add: no_thread_request_def no_messages_request_def hi_request_def
        assistant_only_request_def hello_world_def no_user_final_def)
qed

text \<open>
  Claim C3. A request that passes validation and has no message of role \<open>user\<close> is
  answered with the stream; its run never calls \<open>sendMessage\<close> (nor \<open>getTask\<close>) and never
  emits \<open>RUN_STARTED\<close>, whatever the sink does; and when the sink accepts the write, the
  stream holds exactly one event, the \<open>RUN_ERROR\<close> with message "No user messages to
  send", and is closed.
\<close>

theorem no_user_message_run:
  assumes "truthy (AGUIRunRequest.thread_id body)"
    and "messages body = Some msgs" and "msgs \<noteq> []"
    and "\<forall>m \<in> set msgs. role m \<noteq> user"
  shows "\<exists>s. handleAGUIRun fuel cfg W (JsonObject body) = StreamResponse (Some s) \<and>
      sendMessage_calls s = [] \<and> getTask_calls s = [] \<and>
      (\<forall>e \<in> set (chunks s). type e \<noteq> RUN_STARTED) \<and>
      (write_result W 0 = None \<longrightarrow>
         map type (chunks s) = [RUN_ERROR] \<and>
         map variant (chunks s) = [ErrorFields ''No user messages to send'' None] \<and>
         stream s = Closed)"
proof -
  from handleAGUIRun_validated[OF assms(1,2,3)]
  obtain r where r: "handleAGUIRun fuel cfg W (JsonObject body) = StreamResponse r" by blast
  from handleAGUIRun_stream[OF r] assms(2) obtain thread tid mid s0 where
    ts: "taskId_of W body initial = (tid, s0)"
    and bg: "r = background fuel W msgs \<lparr>threadId = thread, runId = tid\<rparr> thread tid mid
           (pollIntervalMs_of cfg body) (maxPollAttempts_of cfg body)
           (s0\<lparr>uuid_calls := Suc (uuid_calls s0)\<rparr>)"
    by auto
  note s0 = taskId_of_initial[OF ts]
  have w0: "writes s0 = 0"
    using ts by (auto simp: taskId_of_def randomUUID_def initial_def split: if_splits)
  let ?s = "s0\<lparr>uuid_calls := Suc (uuid_calls s0)\<rparr>"
  have "chunks ?s = []" "sendMessage_calls ?s = []" "stream ?s = Writable"
    using s0 by simp_all
  from background_no_user[OF assms(4) this, of fuel W "\<lparr>threadId = thread, runId = tid\<rparr>"
      thread tid mid "pollIntervalMs_of cfg body" "maxPollAttempts_of cfg body"]
  obtain s' where s': "r = Some s'" "sendMessage_calls s' = []" "getTask_calls s' = []"
    "write_result W 0 = None \<longrightarrow>
       chunks s' = [runError \<lparr>threadId = thread, runId = tid\<rparr> ''No user messages to send'' None
         (clock W (clock_calls s0))] \<and> stream s' = Closed"
    "write_result W 0 \<noteq> None \<longrightarrow> chunks s' = []"
    using bg s0 w0 by auto
  have "\<forall>e \<in> set (chunks s'). type e \<noteq> RUN_STARTED"
    using s'(4,5) by (cases "write_result W 0") (auto simp: runError_def spread_def base_def)
  with r s' show ?thesis
    by (auto simp: runError_def spread_def base_def)
qed

theorem no_user_message_run_witness:
  "truthy (AGUIRunRequest.thread_id assistant_only_request) \<and>
   messages assistant_only_request = Some [\<lparr>role = assistant, content = ''hello''\<rparr>] \<and>
   handleAGUIRun 0 default_config hello_world (JsonObject assistant_only_request) =
     StreamResponse (Some no_user_final) \<and>
   sendMessage_calls no_user_final = [] \<and> write_result hello_world 0 = None \<and>
   map type (chunks no_user_final) = [RUN_ERROR] \<and> stream no_user_final = Closed"
proof -
  note run = no_user_run
  from no_user_message_run[of assistant_only_request "[\<lparr>role = assistant, content = ''hello''\<rparr>]"
      0 default_config hello_world] run
  show ?thesis
    by (simp add: assistant_only_request_def no_user_final_def hello_world_def)
qed

text \<open>
  Claim C4. For the request with thread id "t1" and the one user message "hi", when the
  submit succeeds, the first poll returns \<open>working\<close> and the second returns \<open>completed\<close>
  with one artifact of one text part "hello", the stream holds exactly \<open>RUN_STARTED\<close>,
  \<open>STATE_DELTA(working)\<close>, \<open>STATE_DELTA(completed)\<close>, \<open>TEXT_MESSAGE_START\<close>,
  \<open>TEXT_MESSAGE_CONTENT("hello")\<close>, \<open>TEXT_MESSAGE_END\<close>, \<open>RUN_FINISHED\<close>, in that order, on a
  sink that accepts the writes and with a configured bound of at least two attempts.
\<close>

theorem working_then_completed_scenario:
  assumes acc: "accepting W"
    and sent: "sendMessage_result W = None"
    and first: "getTask_result W 0 = Inr t0" "state (status t0) = ''working''"
    and second: "getTask_result W 1 = Inr t1" "state (status t1) = ''completed''"
    and art: "artifacts t1 = Some [a]" "parts a = [p]" "kind p = Text" "text p = Some ''hello''"
    and bound: "number_lt 1 (maxPollAttempts cfg)" and fuel: "2 \<le> fuel"
    and ev: "events = \<lparr>threadId = ''t1'', runId = uuids W 0\<rparr>"
  shows "\<exists>s. handleAGUIRun fuel cfg W (JsonObject hi_request) = StreamResponse (Some s) \<and>
      stream s = Closed \<and>
      chunks s =
        [runStarted events (clock W 0),
         stateDelta events ''working'' (clock W 1),
         stateDelta events ''completed'' (clock W 2),
         textMessageStart events (uuids W 2) ''assistant'' (clock W 3),
         textMessageContent events (uuids W 2) ''hello'' (clock W 4),
         textMessageEnd events (uuids W 2) (clock W 5),
         runFinished events (clock W 6)] \<and>
      map type (chunks s) =
        [RUN_STARTED, STATE_DELTA, STATE_DELTA, TEXT_MESSAGE_START, TEXT_MESSAGE_CONTENT,
         TEXT_MESSAGE_END, RUN_FINISHED]"
proof -
  define f where "f = fuel - 2"
  with fuel have f: "fuel = Suc (Suc f)" by simp
  from acc have w: "\<And>k. write_result W k = None" by (simp add: accepting_def)
  let ?msgs = "[\<lparr>role = user, content = ''hi''\<rparr>]"
  let ?max = "maxPollAttempts cfg"
  define mid where "mid = uuids W 1"
  define params where "params = \<lparr>message_parts = [''hi''], message_messageId = mid,
      message_contextId = ''t1'', message_taskId = uuids W 0\<rparr>"
  define s0 where "s0 = initial\<lparr>uuid_calls := 2\<rparr>"
  define s1 where "s1 = s0\<lparr>sendMessage_calls := [params], clock_calls := 1,
      chunks := [runStarted events (clock W 0)], writes := 1\<rparr>"
  define s2 where "s2 = s1\<lparr>sleeps := [pollIntervalMs cfg], getTask_calls := [uuids W 0],
      clock_calls := 2,
      chunks := [runStarted events (clock W 0), stateDelta events ''working'' (clock W 1)],
      writes := 2\<rparr>"
  define s3 where "s3 = s2\<lparr>sleeps := [pollIntervalMs cfg, pollIntervalMs cfg],
      getTask_calls := [uuids W 0, uuids W 0], uuid_calls := 3,
      clock_calls := 7,
      chunks :=
        [runStarted events (clock W 0),
         stateDelta events ''working'' (clock W 1),
         stateDelta events ''completed'' (clock W 2),
         textMessageStart events (uuids W 2) ''assistant'' (clock W 3),
         textMessageContent events (uuids W 2) ''hello'' (clock W 4),
         textMessageEnd events (uuids W 2) (clock W 5),
         runFinished events (clock W 6)],
      writes := 7\<rparr>"
  have handler: "handleAGUIRun fuel cfg W (JsonObject hi_request) =
      StreamResponse (background fuel W ?msgs events ''t1'' (uuids W 0) mid
        (pollIntervalMs cfg) ?max s0)"
    by (simp add: handleAGUIRun_def hi_request_def taskId_of_def randomUUID_def initial_def
        pollIntervalMs_of_def maxPollAttempts_of_def ev numeral_eq_Suc Let_def s0_def mid_def)
  have started: "and_then (sendMessage W params) (\<lambda>_. emit W (runStarted events)) s0 =
      (Inr (), s1)"
    by (simp add: and_then_def sendMessage_def sent emit_accepted w initial_def s0_def s1_def)
  have it1: "poll_iteration W events (uuids W 0) (pollIntervalMs cfg) ''submitted'' s1 =
      (Inr (Next, ''working''), s2)"
    using iteration_changed_nonterminal[OF acc, of s1 t0 "''submitted''" events "uuids W 0"
        "pollIntervalMs cfg"] first
    by (simp add: initial_def TERMINAL_STATES_def s0_def s1_def s2_def)
  have it2: "poll_iteration W events (uuids W 0) (pollIntervalMs cfg) ''working'' s2 =
      (Inr (Break, ''completed''), s3)"
    using iteration_completed_one_text[OF acc, of s2 t1 "''working''" a p "''hello''" events
        "uuids W 0" "pollIntervalMs cfg"] second art
    by (simp add: initial_def s0_def s1_def s2_def s3_def)
  have loop: "poll_loop fuel W events (uuids W 0) (pollIntervalMs cfg) ?max ''submitted'' 0 s1 =
      Some (Inr (''completed'', Suc 0), s3)"
    using bound number_lt_mono[OF _ bound, of 0] by (simp add: f it1 it2 increment_def)
  have "try_block fuel W ?msgs events ''t1'' (uuids W 0) mid (pollIntervalMs cfg) ?max s0 =
      Some (Inr (), s3)"
    by (simp add: try_block_def started[unfolded params_def] loop return_def TERMINAL_STATES_def)
  moreover have "sse_close s3 = (Inr (), s3\<lparr>stream := Closed\<rparr>)"
    by (simp add: sse_close_def writer_close_def initial_def s0_def s1_def s2_def s3_def)
  ultimately have "background fuel W ?msgs events ''t1'' (uuids W 0) mid
      (pollIntervalMs cfg) ?max s0 = Some (s3\<lparr>stream := Closed\<rparr>)"
    by (simp add: background_def)
  with handler have "handleAGUIRun fuel cfg W (JsonObject hi_request) =
      StreamResponse (Some (s3\<lparr>stream := Closed\<rparr>))"
    by simp
  moreover have "chunks (s3\<lparr>stream := Closed\<rparr>) =
        [runStarted events (clock W 0),
         stateDelta events ''working'' (clock W 1),
         stateDelta events ''completed'' (clock W 2),
         textMessageStart events (uuids W 2) ''assistant'' (clock W 3),
         textMessageContent events (uuids W 2) ''hello'' (clock W 4),
         textMessageEnd events (uuids W 2) (clock W 5),
         runFinished events (clock W 6)]"
    by (simp add: s3_def)
  moreover have "map type [runStarted events (clock W 0),
         stateDelta events ''working'' (clock W 1),
         stateDelta events ''completed'' (clock W 2),
         textMessageStart events (uuids W 2) ''assistant'' (clock W 3),
         textMessageContent events (uuids W 2) ''hello'' (clock W 4),
         textMessageEnd events (uuids W 2) (clock W 5),
         runFinished events (clock W 6)] =
        [RUN_STARTED, STATE_DELTA, STATE_DELTA, TEXT_MESSAGE_START, TEXT_MESSAGE_CONTENT,
         TEXT_MESSAGE_END, RUN_FINISHED]"
    by (simp add: runStarted_def stateDelta_def textMessageStart_def textMessageContent_def
        textMessageEnd_def runFinished_def spread_def base_def)
  ultimately show ?thesis by simp
qed

theorem working_then_completed_scenario_witness:
  "accepting hello_world \<and> sendMessage_result hello_world = None \<and>
   getTask_result hello_world 0 = Inr \<lparr>status = \<lparr>state = ''working''\<rparr>, artifacts = None\<rparr> \<and>
   getTask_result hello_world 1 = Inr hello_task \<and>
   state (status hello_task) = ''completed'' \<and>
   artifacts hello_task =
     Some [\<lparr>artifact_id = ''a1'', parts = [\<lparr>kind = Text, text = Some ''hello''\<rparr>]\<rparr>] \<and>
   number_lt 1 (maxPollAttempts default_config) \<and>
   handleAGUIRun 2 default_config hello_world (JsonObject hi_request) =
     StreamResponse (Some hello_final) \<and>
   map type (chunks hello_final) =
     [RUN_STARTED, STATE_DELTA, STATE_DELTA, TEXT_MESSAGE_START, TEXT_MESSAGE_CONTENT,
      TEXT_MESSAGE_END, RUN_FINISHED]"
proof -
  have acc: "accepting hello_world" by (simp add: accepting_def hello_world_def)
  have sent: "sendMessage_result hello_world = None" by (simp add: hello_world_def)
  have first: "getTask_result hello_world 0 =
      Inr \<lparr>status = \<lparr>state = ''working''\<rparr>, artifacts = None\<rparr>"
    by (simp add: hello_world_def)
  have second: "getTask_result hello_world 1 = Inr hello_task"
    by (simp add: hello_world_def)
  have art: "artifacts hello_task =
      Some [\<lparr>artifact_id = ''a1'', parts = [\<lparr>kind = Text, text = Some ''hello''\<rparr>]\<rparr>]"
    "state (status hello_task) = ''completed''"
    by (simp_all add: hello_task_def)
  have bound: "number_lt 1 (maxPollAttempts default_config)" by (simp add: default_config_def)
  have p: "parts \<lparr>artifact_id = ''a1'', parts = [\<lparr>kind = Text, text = Some ''hello''\<rparr>]\<rparr> =
      [\<lparr>kind = Text, text = Some ''hello''\<rparr>]"
    "kind \<lparr>kind = Text, text = Some ''hello''\<rparr> = Text"
    "text \<lparr>kind = Text, text = Some ''hello''\<rparr> = Some ''hello''"
    "state (status \<lparr>status = \<lparr>state = ''working''\<rparr>, artifacts = None\<rparr>) = ''working''"
    by simp_all
  have "(2::nat) \<le> 2" by simp
  from working_then_completed_scenario[OF acc sent first p(4) second art(2) art(1) p(1,2,3) bound
      this refl] hello_run
  have ty: "map type (chunks hello_final) =
     [RUN_STARTED, STATE_DELTA, STATE_DELTA, TEXT_MESSAGE_START, TEXT_MESSAGE_CONTENT,
      TEXT_MESSAGE_END, RUN_FINISHED]"
    by (simp add: runStarted_def stateDelta_def textMessageStart_def textMessageContent_def
        textMessageEnd_def runFinished_def spread_def base_def)
  from ty hello_run acc sent first second art bound show ?thesis by simp
qed

text \<open>
  Claim C5. In every run, a status query that returns a terminal state is the last one,
  and the state deltas on the stream are changes of the polled states, in order,
  starting from \<open>submitted\<close>: a polled state equal to the last observed one yields no
  state delta, so no two consecutive state deltas announce the same state. When no
  write failed, the state deltas are exactly these changes.
\<close>

theorem polling_stops_and_deltas_are_changes:
  assumes "handleAGUIRun fuel cfg W (JsonObject body) = StreamResponse (Some s)"
  shows "(\<forall>k task. k < length (getTask_calls s) \<and> getTask_result W k = Inr task \<and>
            state (status task) \<in> set TERMINAL_STATES \<longrightarrow> length (getTask_calls s) = Suc k) \<and>
         prefix (state_deltas (chunks s))
           (state_changes ''submitted'' (observed W (length (getTask_calls s)))) \<and>
         (stream s = Closed \<longrightarrow>
            state_deltas (chunks s) =
              state_changes ''submitted'' (observed W (length (getTask_calls s)))) \<and>
         distinct_adj (''submitted'' # state_deltas (chunks s))"
proof -
  from handleAGUIRun_stream[OF assms] obtain thread msgs tid mid s0 where
    ts: "taskId_of W body initial = (tid, s0)"
    and bg: "background fuel W msgs \<lparr>threadId = thread, runId = tid\<rparr> thread tid mid
           (pollIntervalMs_of cfg body) (maxPollAttempts_of cfg body)
           (s0\<lparr>uuid_calls := Suc (uuid_calls s0)\<rparr>) = Some s"
    by metis
  note s0 = taskId_of_initial[OF ts]
  have "fresh (s0\<lparr>uuid_calls := Suc (uuid_calls s0)\<rparr>)"
    by (simp add: fresh_def s0)
  from background_polled[OF this bg] have p: "polled W s" .
  let ?n = "length (getTask_calls s)"
  have stop: "?n = Suc k"
    if "k < ?n" "getTask_result W k = Inr task" "state (status task) \<in> set TERMINAL_STATES"
    for k task
  proof (rule ccontr)
    assume "?n \<noteq> Suc k"
    with that(1) have "k < ?n - 1" by simp
    with p have "nonterminal_poll W k" by (simp add: polled_def polls_ok_def)
    with that(2,3) show False by (simp add: nonterminal_poll_def)
  qed
  from p have pre: "prefix (state_deltas (chunks s)) (state_changes ''submitted'' (observed W ?n))"
    and eq: "stream s = Closed \<longrightarrow>
      state_deltas (chunks s) = state_changes ''submitted'' (observed W ?n)"
    by (simp_all add: polled_def deltas_ok_def)
  from pre obtain rest where
    "state_changes ''submitted'' (observed W ?n) = state_deltas (chunks s) @ rest"
    by (auto simp: prefix_def)
  with distinct_adj_state_changes[of "''submitted''" "observed W ?n"]
  have "distinct_adj ((''submitted'' # state_deltas (chunks s)) @ rest)" by simp
  then have "distinct_adj (''submitted'' # state_deltas (chunks s))"
    by (rule distinct_adj_appendD1)
  with stop pre eq show ?thesis by blast
qed

theorem polling_stops_and_deltas_are_changes_witness:
  "handleAGUIRun 3 default_config steady_world (JsonObject hi_request) =
     StreamResponse (Some steady_final) \<and>
   length (getTask_calls steady_final) = 3 \<and>
   getTask_result steady_world 2 = Inr hello_task \<and>
   state (status hello_task) \<in> set TERMINAL_STATES \<and>
   observed steady_world 3 = [''working'', ''working'', ''completed''] \<and>
   stream steady_final = Closed \<and>
   state_deltas (chunks steady_final) = [''working'', ''completed''] \<and>
   distinct_adj (''submitted'' # state_deltas (chunks steady_final))"
proof -
  have len: "length (getTask_calls steady_final) = 3"
    by (simp add: steady_final_def)
  have got: "getTask_result steady_world 2 = Inr hello_task"
    by (simp add: steady_world_def hello_world_def)
  have tm: "state (status hello_task) \<in> set TERMINAL_STATES"
    by (simp add: hello_task_def TERMINAL_STATES_def)
  have cl: "stream steady_final = Closed"
    by (simp add: steady_final_def hello_final_def)
  from polling_stops_and_deltas_are_changes[OF steady_run] len got tm cl steady_observed steady_run
  show ?thesis by simp
qed

text \<open>
  Claim C6, as stated, fails for a request that supplies \<open>timeout_ms = 0\<close>: the bound is
  the configured 120 attempts, not \<open>ceil(0 / 500) = 0\<close>, and the run polls twice.
\<close>

theorem zero_timeout_is_not_an_override:
  "Option.bind (config zero_timeout_request) timeout_ms = Some (Num 0) \<and>
   Math_ceil (number_div (Num 0) (pollIntervalMs_of default_config zero_timeout_request)) = Num 0 \<and>
   maxPollAttempts_of default_config zero_timeout_request = Num 120 \<and>
   handleAGUIRun 2 default_config hello_world (JsonObject zero_timeout_request) =
     StreamResponse (Some hello_final) \<and>
   length (getTask_calls hello_final) = 2"
proof -
  have "handleAGUIRun 2 default_config hello_world (JsonObject zero_timeout_request) =
     StreamResponse (Some hello_final)"
    by code_simp
  then show ?thesis
    by (simp add: zero_timeout_request_def hi_request_def default_config_def hello_final_def
        maxPollAttempts_of_def pollIntervalMs_of_def number_div_def signed_zero_def)
qed

text \<open>
  Claim C6, amended. Let \<open>p\<close> be the request's \<open>polling_interval_ms\<close> if supplied, else the
  configured interval, and let \<open>b\<close> be \<open>ceil(timeout_ms / p)\<close>, the quotient being the double
  that the division returns, if the request supplies a \<open>timeout_ms\<close> that is truthy (neither
  \<open>0\<close> nor \<open>-0\<close>), else the configured number of attempts. Then every poll attempt of the
  run sleeps once and queries the task once, every sleep lasts \<open>p\<close>, and \<open>b\<close> is the greatest
  number of poll attempts: no run makes more, and a run that nothing else stops makes
  exactly \<open>b\<close>. (A bound that is negative, zero or \<open>NaN\<close> allows no attempt; an infinite
  bound, or one beyond \<open>2^53\<close>, limits none.)
\<close>

theorem override_governs_sleeps_and_attempts:
  assumes run: "handleAGUIRun fuel cfg W (JsonObject body) = StreamResponse (Some s)"
    and interval:
      "Option.bind (config body) polling_interval_ms = Some p \<or>
       Option.bind (config body) polling_interval_ms = None \<and> p = pollIntervalMs cfg"
    and bound:
      "Option.bind (config body) timeout_ms = Some t \<and> truthy_number (Some t) \<and>
         b = Math_ceil (number_div t p) \<or>
       \<not> truthy_number (Option.bind (config body) timeout_ms) \<and> b = maxPollAttempts cfg"
  shows "length (sleeps s) = length (getTask_calls s) \<and>
     (\<forall>ms \<in> set (sleeps s). ms = p) \<and>
     attempts_within (length (getTask_calls s)) b \<and>
     (unstopped W (the (messages body)) \<longrightarrow> attempts_are (length (getTask_calls s)) b)"
proof -
  from interval have p: "p = pollIntervalMs_of cfg body"
    by (auto simp: pollIntervalMs_of_def)
  from bound have b: "b = maxPollAttempts_of cfg body"
    by (auto simp: maxPollAttempts_of_def p)
  from handleAGUIRun_stream[OF run] obtain thread msgs tid mid s0 where
    ms: "messages body = Some msgs"
    and ts: "taskId_of W body initial = (tid, s0)"
    and bg: "background fuel W msgs \<lparr>threadId = thread, runId = tid\<rparr> thread tid mid
           (pollIntervalMs_of cfg body) (maxPollAttempts_of cfg body)
           (s0\<lparr>uuid_calls := Suc (uuid_calls s0)\<rparr>) = Some s"
    by metis
  note s0 = taskId_of_unpolled[OF ts] taskId_of_initial[OF ts]
  let ?s = "s0\<lparr>uuid_calls := Suc (uuid_calls s0)\<rparr>"
  have un: "unpolled ?s" and wr: "stream ?s = Writable"
    by (simp_all add: unpolled_def s0)
  from background_counted[OF un bg]
  have c: "counted (maxPollAttempts_of cfg body) s" .
  have "slept (pollIntervalMs_of cfg body) ?s"
    by (simp add: slept_def s0)
  from background_slept[OF this bg]
  have sl: "\<forall>ms \<in> set (sleeps s). ms = pollIntervalMs_of cfg body"
    by (simp add: slept_def)
  have "attempts_are (length (getTask_calls s)) (maxPollAttempts_of cfg body)"
    if "unstopped W (the (messages body))"
    using background_exhausts[OF _ wr un bg] that ms by simp
  with c sl show ?thesis
    by (simp add: counted_def p b)
qed

theorem override_governs_sleeps_and_attempts_witness:
  "handleAGUIRun 5 default_config working_world (JsonObject timed_request) =
     StreamResponse (Some exhausted_final) \<and>
   Option.bind (config timed_request) polling_interval_ms = Some (Num 300) \<and>
   Option.bind (config timed_request) timeout_ms = Some (Num 1000) \<and>
   truthy_number (Some (Num 1000)) \<and>
   Math_ceil (number_div (Num 1000) (Num 300)) = Num 4 \<and>
   unstopped working_world (the (messages timed_request)) \<and>
   sleeps exhausted_final = [Num 300, Num 300, Num 300, Num 300] \<and>
   length (getTask_calls exhausted_final) = 4 \<and>
   attempts_are 4 (Num 4) \<and>
   handleAGUIRun 2 default_config hello_world (JsonObject timeout_only_request) =
     StreamResponse (Some hello_final) \<and>
   Option.bind (config timeout_only_request) polling_interval_ms = None \<and>
   Option.bind (config timeout_only_request) timeout_ms = Some (Num 1000) \<and>
   Math_ceil (number_div (Num 1000) (pollIntervalMs default_config)) = Num 2 \<and>
   handleAGUIRun 2 default_config hello_world (JsonObject hi_request) =
     StreamResponse (Some hello_final) \<and>
   Option.bind (config hi_request) polling_interval_ms = None \<and>
   \<not> truthy_number (Option.bind (config hi_request) timeout_ms) \<and>
   maxPollAttempts default_config = Num 120 \<and>
   sleeps hello_final = [Num 500, Num 500] \<and>
   length (getTask_calls hello_final) = 2 \<and>
   attempts_within 2 (Num 2) \<and> attempts_within 2 (Num 120)"
proof -
  have run: "handleAGUIRun 2 default_config hello_world (JsonObject timeout_only_request) =
     StreamResponse (Some hello_final)"
    by code_simp
  have c: "Math_ceil (number_div (Num 1000) (pollIntervalMs default_config)) = Num 2"
    unfolding default_config_def by code_simp
  have un: "unstopped working_world (the (messages timed_request))"
    by (simp add: unstopped_def working_world_def hello_world_def timed_request_def
        hi_request_def nonterminal_poll_def TERMINAL_STATES_def accepting_def)
  have h1: "Option.bind (config timed_request) polling_interval_ms = Some (Num 300)"
    "Option.bind (config timed_request) timeout_ms = Some (Num 1000)"
    by (simp_all add: timed_request_def hi_request_def)
  have h2: "Option.bind (config timeout_only_request) polling_interval_ms = None"
    "Option.bind (config timeout_only_request) timeout_ms = Some (Num 1000)"
    by (simp_all add: timeout_only_request_def hi_request_def)
  have h3: "Option.bind (config hi_request) polling_interval_ms = None"
    "\<not> truthy_number (Option.bind (config hi_request) timeout_ms)"
    by (simp_all add: hi_request_def)
  from override_governs_sleeps_and_attempts[OF exhausted_run, of "Num 300" "Num 1000" "Num 4"]
    h1 number_div_examples(2) un
  have a1: "attempts_are (length (getTask_calls exhausted_final)) (Num 4)" by simp
  from override_governs_sleeps_and_attempts[OF run, of "Num 500" "Num 1000" "Num 2"] h2 c
  have a2: "attempts_within (length (getTask_calls hello_final)) (Num 2)"
    by (simp add: default_config_def)
  from override_governs_sleeps_and_attempts[OF hello_run, of "Num 500" "Num 0" "Num 120"] h3
  have a3: "attempts_within (length (getTask_calls hello_final)) (Num 120)"
    by (simp add: default_config_def)
  from a1 a2 a3 exhausted_run run hello_run c number_div_examples(2) un h1 h2 h3
  show ?thesis
    by (simp add: default_config_def exhausted_final_def hello_final_def)
qed

text \<open>
  Claim C7. Every event on the stream of a run carries, as \<open>thread_id\<close>, the request's
  thread id and, as \<open>run_id\<close>, the run's task id: the request's \<open>run_id\<close> when that is a
  non-empty string, and otherwise the identifier generated first. This holds for every
  kind of event, for every remote agent and whether or not the sink accepts the writes.
\<close>

theorem events_carry_run_identifiers:
  assumes "handleAGUIRun fuel cfg W (JsonObject body) = StreamResponse (Some s)"
    and "e \<in> set (chunks s)"
  shows "AGUIRunRequest.thread_id body = Some (thread_id e) \<and>
         (if truthy (AGUIRunRequest.run_id body)
          then AGUIRunRequest.run_id body = Some (run_id e)
          else run_id e = uuids W 0)"
proof -
  from handleAGUIRun_stream[OF assms(1)] obtain thread msgs tid mid s0 where
    th: "AGUIRunRequest.thread_id body = Some thread"
    and ts: "taskId_of W body initial = (tid, s0)"
    and bg: "background fuel W msgs \<lparr>threadId = thread, runId = tid\<rparr> thread tid mid
           (pollIntervalMs_of cfg body) (maxPollAttempts_of cfg body)
           (s0\<lparr>uuid_calls := Suc (uuid_calls s0)\<rparr>) = Some s"
    by metis
  note s0 = taskId_of_initial[OF ts]
  have "all_stamped \<lparr>threadId = thread, runId = tid\<rparr> (s0\<lparr>uuid_calls := Suc (uuid_calls s0)\<rparr>)"
    by (simp add: all_stamped_def s0)
  from background_all_stamped[OF this bg] assms(2)
  have "stamped \<lparr>threadId = thread, runId = tid\<rparr> e" by (simp add: all_stamped_def)
  with th s0 show ?thesis by (auto simp: stamped_def)
qed

theorem events_carry_run_identifiers_witness:
  "handleAGUIRun 2 default_config hello_world (JsonObject hi_request) = StreamResponse (Some hello_final) \<and>
   hello_events ! 4 \<in> set (chunks hello_final) \<and>
   AGUIRunRequest.thread_id hi_request = Some (thread_id (hello_events ! 4)) \<and>
   \<not> truthy (AGUIRunRequest.run_id hi_request) \<and>
   run_id (hello_events ! 4) = uuids hello_world 0"
proof -
  have mem: "hello_events ! 4 \<in> set (chunks hello_final)"
    by (simp add: hello_final_def hello_events_def)
  from events_carry_run_identifiers[OF hello_run mem] hello_run mem show ?thesis
    by (simp add: hi_request_def)
qed

text \<open>
  Claim C8, as stated, fails: the sink's \<open>close\<close> raises when the stream was closed before,
  and when a write to it had failed.
\<close>

theorem close_raises_after_close_or_failed_write:
  "fst (sse_close initial) = Inr () \<and>
   fst (sse_close closed_once) = Inl (Error ''TypeError'') \<and>
   fst (sse_emit refusing_world (hello_events ! 0) initial) = Inl (Error ''disconnected'') \<and>
   fst (sse_close write_failed) = Inl (Error ''TypeError'')"
  by (simp add: closed_once_def write_failed_def refusing_world_def sse_close_def
      writer_close_def sse_emit_def writer_write_def initial_def)

text \<open>
  Claim C8, amended. The sink's \<open>close\<close> forwards the writer's close: it succeeds exactly
  on a writable stream, which it leaves closed, and it raises on a stream that is closed
  or errored, which it leaves as it is. The run handler catches what \<open>close\<close> raises: a
  background task that ends leaves the stream closed or errored, never writable.
\<close>

theorem close_forwards_the_writer_and_the_run_swallows_it:
  "(fst (sse_close s) = Inr () \<longleftrightarrow> stream s = Writable) \<and>
   (stream s = Writable \<longrightarrow> stream (snd (sse_close s)) = Closed) \<and>
   (stream s \<noteq> Writable \<longrightarrow> snd (sse_close s) = s) \<and>
   (\<forall>s'. background fuel W msgs events thread tid mid intervalMs maxAttempts s = Some s' \<longrightarrow>
      stream s' \<noteq> Writable)"
  by (auto simp: sse_close_def writer_close_def background_def Let_def
      split: option.splits prod.splits)

theorem close_forwards_the_writer_and_the_run_swallows_it_witness:
  "fst (sse_close initial) = Inr () \<and> stream initial = Writable \<and>
   stream (snd (sse_close initial)) = Closed \<and>
   stream closed_once \<noteq> Writable \<and> snd (sse_close closed_once) = closed_once \<and>
   background 2 refusing_world [\<lparr>role = user, content = ''hi''\<rparr>]
     \<lparr>threadId = ''t1'', runId = ''run-1''\<rparr> ''t1'' ''run-1'' ''msg-1'' (Num 500) (Num 120)
     (initial\<lparr>uuid_calls := 2\<rparr>) = Some refused_final \<and>
   stream refused_final \<noteq> Writable"
proof -
  have a: "stream initial = Writable" by (simp add: initial_def)
  have b: "stream closed_once \<noteq> Writable"
    by (simp add: closed_once_def initial_def sse_close_def writer_close_def)
  from close_forwards_the_writer_and_the_run_swallows_it[of initial] a
    close_forwards_the_writer_and_the_run_swallows_it[of closed_once] b
    close_forwards_the_writer_and_the_run_swallows_it[of "initial\<lparr>uuid_calls := 2\<rparr>" 2
      refusing_world "[\<lparr>role = user, content = ''hi''\<rparr>]"
      "\<lparr>threadId = ''t1'', runId = ''run-1''\<rparr>" "''t1''" "''run-1''" "''msg-1''" "Num 500" "Num 120"]
    refused_run
  show ?thesis by simp
qed

text \<open>
  Claim C9. A request whose \<open>run_id\<close> is the empty string is handled exactly as the same
  request without \<open>run_id\<close>: the task id is the identifier generated first, and it is
  the \<open>run_id\<close> of every event on the stream and the task id of every remote call.
\<close>

theorem empty_run_id_is_absent:
  "handleAGUIRun fuel cfg W (JsonObject (body\<lparr>AGUIRunRequest.run_id := Some ''''\<rparr>)) =
     handleAGUIRun fuel cfg W (JsonObject (body\<lparr>AGUIRunRequest.run_id := None\<rparr>)) \<and>
   taskId_of W (body\<lparr>AGUIRunRequest.run_id := Some ''''\<rparr>) initial = randomUUID W initial \<and>
   fst (randomUUID W initial) = uuids W 0 \<and>
   (\<forall>s. handleAGUIRun fuel cfg W (JsonObject (body\<lparr>AGUIRunRequest.run_id := Some ''''\<rparr>)) =
          StreamResponse (Some s) \<longrightarrow>
      (\<forall>e \<in> set (chunks s). run_id e = uuids W 0) \<and>
      (\<forall>p \<in> set (sendMessage_calls s). message_taskId p = uuids W 0) \<and>
      (\<forall>t \<in> set (getTask_calls s). t = uuids W 0))"
proof -
  let ?body = "body\<lparr>AGUIRunRequest.run_id := Some ''''\<rparr>"
  have t: "taskId_of W ?body initial = randomUUID W initial"
    by (simp add: taskId_of_def)
  have u: "fst (randomUUID W initial) = uuids W 0"
    by (simp add: randomUUID_def initial_def)
  have "(\<forall>e \<in> set (chunks s). run_id e = uuids W 0) \<and>
        (\<forall>p \<in> set (sendMessage_calls s). message_taskId p = uuids W 0) \<and>
        (\<forall>t \<in> set (getTask_calls s). t = uuids W 0)"
    if run: "handleAGUIRun fuel cfg W (JsonObject ?body) = StreamResponse (Some s)" for s
  proof -
    from handleAGUIRun_stream[OF run] obtain thread msgs tid mid s0 where
      ts: "taskId_of W ?body initial = (tid, s0)"
      and bg: "background fuel W msgs \<lparr>threadId = thread, runId = tid\<rparr> thread tid mid
           (pollIntervalMs_of cfg ?body) (maxPollAttempts_of cfg ?body)
           (s0\<lparr>uuid_calls := Suc (uuid_calls s0)\<rparr>) = Some s"
      by metis
    note s0 = taskId_of_initial[OF ts]
    from s0 have tid: "tid = uuids W 0" by simp
    have "all_stamped \<lparr>threadId = thread, runId = tid\<rparr> (s0\<lparr>uuid_calls := Suc (uuid_calls s0)\<rparr>)"
      by (simp add: all_stamped_def s0)
    from background_all_stamped[OF this bg]
    have ev: "\<forall>e \<in> set (chunks s). run_id e = uuids W 0"
      by (simp add: all_stamped_def stamped_def tid)
    have "calls_for tid (s0\<lparr>uuid_calls := Suc (uuid_calls s0)\<rparr>)"
      by (simp add: calls_for_def s0)
    from background_calls_for[OF this bg] ev show ?thesis
      by (simp add: calls_for_def tid)
  qed
  with handleAGUIRun_empty_run_id t u show ?thesis by blast
qed

theorem empty_run_id_is_absent_witness:
  "handleAGUIRun 2 default_config hello_world (JsonObject empty_run_id_request) =
     StreamResponse (Some hello_final) \<and>
   hi_request\<lparr>AGUIRunRequest.run_id := None\<rparr> = hi_request \<and>
   uuids hello_world 0 = ''run-1'' \<and>
   map run_id (chunks hello_final) =
     [''run-1'', ''run-1'', ''run-1'', ''run-1'', ''run-1'', ''run-1'', ''run-1''] \<and>
   map message_taskId (sendMessage_calls hello_final) = [''run-1''] \<and>
   getTask_calls hello_final = [''run-1'', ''run-1'']"
proof -
  have same: "hi_request\<lparr>AGUIRunRequest.run_id := None\<rparr> = hi_request"
    by (simp add: hi_request_def)
  from empty_run_id_is_absent[of 2 default_config hello_world hi_request] hello_run
  have "handleAGUIRun 2 default_config hello_world (JsonObject empty_run_id_request) =
     StreamResponse (Some hello_final)"
    by (simp add: empty_run_id_request_def same)
  then show ?thesis
    by (simp add: same hello_final_def hello_events_def hello_world_def)
qed

text \<open>
  Claim C10. On a sink that accepts the writes, expanding the artifacts of a task appends
  to the stream one start/content/end triple for each part of kind \<open>text\<close> with a
  non-empty text, in the order of the artifacts and their parts, and nothing else: a
  part of kind \<open>file\<close> or \<open>data\<close>, and a part whose text is absent or empty, contributes
  no event, and a task without artifacts contributes none at all.
\<close>

theorem artifacts_become_text_messages:
  assumes "accepting W" and "stream s = Writable"
  shows "\<exists>s'. emitArtifactsAsMessages W events task s = (Inr (), s') \<and>
      chunks s' =
        chunks s @ message_events W events (uuid_calls s) (clock_calls s) (text_bearing task) \<and>
      (artifacts task = None \<or> artifacts task = Some [] \<longrightarrow> chunks s' = chunks s) \<and>
      (\<forall>p. kind p \<noteq> Text \<or> text p = None \<or> text p = Some [] \<longrightarrow> text_of_part p = None) \<and>
      (\<forall>p t. kind p = Text \<and> text p = Some t \<and> t \<noteq> [] \<longrightarrow> text_of_part p = Some t)"
proof -
  from emitArtifactsAsMessages_accepted[OF assms, of events task] obtain s' where
    "emitArtifactsAsMessages W events task s = (Inr (), s')"
    and "messages_only W events (text_bearing task) s s'"
    by blast
  moreover have "artifacts task = None \<or> artifacts task = Some [] \<Longrightarrow> text_bearing task = []"
    by (auto simp: text_bearing_def)
  ultimately show ?thesis
    by (auto simp: messages_only_def text_of_part_def split: option.splits)
qed

theorem artifacts_become_text_messages_witness:
  "accepting hello_world \<and> stream initial = Writable \<and>
   text_bearing mixed_task = [''one'', ''two''] \<and>
   fst (emitArtifactsAsMessages hello_world \<lparr>threadId = ''t1'', runId = ''run-1''\<rparr> mixed_task
          initial) = Inr () \<and>
   map variant (chunks (snd (emitArtifactsAsMessages hello_world
          \<lparr>threadId = ''t1'', runId = ''run-1''\<rparr> mixed_task initial))) =
     [StartFields ''run-1'' ''assistant'', ContentFields ''run-1'' ''one'', EndFields ''run-1'',
      StartFields ''msg-1'' ''assistant'', ContentFields ''msg-1'' ''two'', EndFields ''msg-1'']"
proof -
  have acc: "accepting hello_world" by (simp add: accepting_def hello_world_def)
  have wr: "stream initial = Writable" by (simp add: initial_def)
  have tb: "text_bearing mixed_task = [''one'', ''two'']"
    by (simp add: text_bearing_def mixed_task_def map_filter_simps text_of_part_def)
  from artifacts_become_text_messages[OF acc wr, of "\<lparr>threadId = ''t1'', runId = ''run-1''\<rparr>"
      mixed_task]
  obtain s' where "emitArtifactsAsMessages hello_world \<lparr>threadId = ''t1'', runId = ''run-1''\<rparr>
      mixed_task initial = (Inr (), s')"
    and "chunks s' = chunks initial @ message_events hello_world
      \<lparr>threadId = ''t1'', runId = ''run-1''\<rparr> (uuid_calls initial) (clock_calls initial)
      (text_bearing mixed_task)"
    by blast
  with acc wr tb show ?thesis
    by (simp add: initial_def hello_world_def textMessageStart_def textMessageContent_def
        textMessageEnd_def spread_def base_def)
qed

end
